theory Spec2Isabelle
  imports Complex_Main "HOL-Library.Word"
begin

unbundle bit_operations_syntax

section \<open>The chained hash table of simple\_db.c\<close>

text \<open>
  The store is a hash table with separate chaining. The embedding follows
  \<^verbatim>\<open>src/core/simple_db.c\<close> function by function.

  \<^item> A C string is modelled by its content: the bytes before the terminating NUL,
    as a \<^typ>\<open>string\<close>. A pointer that may be \<^verbatim>\<open>NULL\<close> is an \<^typ>\<open>'a option\<close>.
  \<^item> A chain (the nodes linked through \<^verbatim>\<open>next\<close>) is the list of its entries from
    head to tail; the bucket array is the list of the chains.
  \<^item> Hashes are 64-bit words, whose multiplication wraps as \<^verbatim>\<open>uint64_t\<close> does.
    The \<^verbatim>\<open>size_t\<close> fields \<open>capacity\<close> and \<open>count\<close> are natural numbers: a table that
    fits in memory has far fewer than \<open>2^53\<close> entries, so that no \<^verbatim>\<open>size_t\<close> operation
    wraps and the conversion to \<^verbatim>\<open>double\<close> in the load test is exact.
  \<^item> \<^verbatim>\<open>malloc\<close> and \<^verbatim>\<open>calloc\<close> may fail. The outcomes of the allocation
    requests still to come are a parameter of every function that allocates: request
    number \<open>n\<close> from now succeeds iff the allocator maps \<open>n\<close> to \<open>True\<close>. A function
    that allocates returns the allocator that is left.
\<close>

subsection \<open>Internal structures\<close>

definition INITIAL_CAPACITY :: nat where
  "INITIAL_CAPACITY = 64"

text \<open>The field \<^verbatim>\<open>value\<close> is called \<open>val\<close> here; \<^verbatim>\<open>next\<close> is the tail of the chain.\<close>

record Entry =
  key :: string
  val :: string

record SimpleDB =
  buckets :: "Entry list list"
  capacity :: nat
  count :: nat

record DBStats =
  total_entries :: nat
  total_collisions :: nat
  max_chain_length :: nat
  used_buckets :: nat

subsection \<open>Allocation\<close>

type_synonym allocator = "nat \<Rightarrow> bool"

definition malloc :: "allocator \<Rightarrow> bool \<times> allocator" where
  "malloc a = (a 0, \<lambda>n. a (Suc n))"

text \<open>\<^verbatim>\<open>calloc\<close> succeeds or fails as \<^verbatim>\<open>malloc\<close> does; the array it returns is zeroed.\<close>

definition calloc :: "allocator \<Rightarrow> bool \<times> allocator" where
  "calloc a = malloc a"

text \<open>\<^verbatim>\<open>dup_str\<close> is one \<^verbatim>\<open>malloc\<close> and a copy of the bytes.\<close>

definition dup_str :: "allocator \<Rightarrow> string \<Rightarrow> string option \<times> allocator" where
  "dup_str a s = (case malloc a of (ok, a') \<Rightarrow> (if ok then Some s else None, a'))"

subsection \<open>FNV-1a 64-bit hash\<close>

definition fnv1a :: "string \<Rightarrow> 64 word" where
  "fnv1a s = fold (\<lambda>c hash. (hash XOR of_char c) * 1099511628211) s 14695981039346656037"

definition bucket_index :: "64 word \<Rightarrow> nat \<Rightarrow> nat" where
  "bucket_index hash cap = unat (hash AND (word_of_nat cap - 1))"

subsection \<open>Resize\<close>

text \<open>One turn of the inner loop of \<^verbatim>\<open>rehash\<close>: the node moves to the head of its new chain.\<close>

definition relink :: "nat \<Rightarrow> Entry \<Rightarrow> Entry list list \<Rightarrow> Entry list list" where
  "relink new_cap e new_buckets =
     (let idx = bucket_index (fnv1a (key e)) new_cap
      in new_buckets[idx := e # new_buckets ! idx])"

definition rehash :: "allocator \<Rightarrow> SimpleDB \<Rightarrow> nat \<Rightarrow> bool \<times> SimpleDB \<times> allocator" where
  "rehash a db new_cap =
     (case calloc a of (ok, a') \<Rightarrow>
        if \<not> ok then (False, db, a')
        else (True,
              db\<lparr>buckets := fold (\<lambda>i new_buckets. fold (relink new_cap) (buckets db ! i) new_buckets)
                                 [0..<capacity db] (replicate new_cap []),
                 capacity := new_cap\<rparr>,
              a'))"

subsection \<open>Lifecycle\<close>

definition db_create :: "allocator \<Rightarrow> SimpleDB option \<times> allocator" where
  "db_create a =
     (case malloc a of (ok1, a1) \<Rightarrow>
        if \<not> ok1 then (None, a1)
        else (case calloc a1 of (ok2, a2) \<Rightarrow>
          if \<not> ok2 then (None, a2)
          else (Some \<lparr>buckets = replicate INITIAL_CAPACITY [],
                      capacity = INITIAL_CAPACITY, count = 0\<rparr>, a2)))"

subsection \<open>CRUD\<close>

text \<open>
  The load test of \<^verbatim>\<open>db_set\<close> is \<^verbatim>\<open>(double)(count + 1) / (double)capacity > 0.75\<close>.
  Both conversions are exact below \<open>2^53\<close>, and the quotient by a power of two is exact,
  so the test is the comparison of the fractions: \<open>4 * (count + 1) > 3 * capacity\<close>.
\<close>

definition load_exceeded :: "SimpleDB \<Rightarrow> bool" where
  "load_exceeded db \<longleftrightarrow> 3 * capacity db < 4 * (count db + 1)"

text \<open>
  The update loop of \<^verbatim>\<open>db_set\<close> over one chain. \<open>None\<close>: the loop ended without a match.
  \<open>Some (ok, chain', a')\<close>: an entry with the key was found, and \<^verbatim>\<open>db_set\<close> returns \<open>ok\<close>.
\<close>

fun chain_set :: "allocator \<Rightarrow> Entry list \<Rightarrow> string \<Rightarrow> string \<Rightarrow> (bool \<times> Entry list \<times> allocator) option" where
  "chain_set a [] k v = None"
| "chain_set a (e # es) k v =
     (if key e = k then
        (case dup_str a v of
           (None, a') \<Rightarrow> Some (False, e # es, a')
         | (Some new_val, a') \<Rightarrow> Some (True, e\<lparr>val := new_val\<rparr> # es, a'))
      else map_option (\<lambda>(ok, es', a'). (ok, e # es', a')) (chain_set a es k v))"

text \<open>The insertion at the head of the chain, after the loop found no match.\<close>

definition insert_head :: "allocator \<Rightarrow> SimpleDB \<Rightarrow> nat \<Rightarrow> string \<Rightarrow> string \<Rightarrow> bool \<times> SimpleDB \<times> allocator" where
  "insert_head a db idx k v =
     (case malloc a of (ok, a1) \<Rightarrow>
        if \<not> ok then (False, db, a1)
        else (case dup_str a1 k of
            (None, a2) \<Rightarrow> (False, db, a2)
          | (Some ne_key, a2) \<Rightarrow>
              (case dup_str a2 v of
                 (None, a3) \<Rightarrow> (False, db, a3)
               | (Some ne_value, a3) \<Rightarrow>
                   (True,
                    db\<lparr>buckets := (buckets db)[idx := \<lparr>key = ne_key, val = ne_value\<rparr> # buckets db ! idx],
                       count := count db + 1\<rparr>,
                    a3))))"

text \<open>\<^verbatim>\<open>db_set\<close> from the hash computation on, the table being as the load test left it.\<close>

definition set_in_bucket :: "allocator \<Rightarrow> SimpleDB \<Rightarrow> string \<Rightarrow> string \<Rightarrow> bool \<times> SimpleDB \<times> allocator" where
  "set_in_bucket a db k v =
     (let hash = fnv1a k;
          idx = bucket_index hash (capacity db)
      in case chain_set a (buckets db ! idx) k v of
           Some (ok, chain', a') \<Rightarrow> (ok, db\<lparr>buckets := (buckets db)[idx := chain']\<rparr>, a')
         | None \<Rightarrow> insert_head a db idx k v)"

definition db_set :: "allocator \<Rightarrow> SimpleDB option \<Rightarrow> string option \<Rightarrow> string option
    \<Rightarrow> bool \<times> SimpleDB option \<times> allocator" where
  "db_set a dbp keyp valuep =
     (case (dbp, keyp, valuep) of
        (Some db, Some k, Some v) \<Rightarrow>
          (if load_exceeded db then
             (case rehash a db (capacity db * 2) of (ok, db1, a1) \<Rightarrow>
                if \<not> ok then (False, Some db1, a1)
                else (case set_in_bucket a1 db1 k v of (r, db2, a2) \<Rightarrow> (r, Some db2, a2)))
           else (case set_in_bucket a db k v of (r, db2, a2) \<Rightarrow> (r, Some db2, a2)))
      | _ \<Rightarrow> (False, dbp, a))"

fun chain_get :: "Entry list \<Rightarrow> string \<Rightarrow> string option" where
  "chain_get [] k = None"
| "chain_get (e # es) k = (if key e = k then Some (val e) else chain_get es k)"

definition db_get :: "SimpleDB option \<Rightarrow> string option \<Rightarrow> string option" where
  "db_get dbp keyp =
     (case (dbp, keyp) of
        (Some db, Some k) \<Rightarrow>
          (let idx = bucket_index (fnv1a k) (capacity db)
           in chain_get (buckets db ! idx) k)
      | _ \<Rightarrow> None)"

text \<open>
  The unlink loop of \<^verbatim>\<open>db_delete\<close>: \<open>None\<close> when no entry has the key. The decrement
  of \<open>count\<close> happens only when an entry was found; in a well-formed table \<open>count\<close> is then
  positive.
\<close>

fun chain_delete :: "Entry list \<Rightarrow> string \<Rightarrow> Entry list option" where
  "chain_delete [] k = None"
| "chain_delete (e # es) k =
     (if key e = k then Some es else map_option ((#) e) (chain_delete es k))"

definition db_delete :: "SimpleDB option \<Rightarrow> string option \<Rightarrow> bool \<times> SimpleDB option" where
  "db_delete dbp keyp =
     (case (dbp, keyp) of
        (Some db, Some k) \<Rightarrow>
          (let idx = bucket_index (fnv1a k) (capacity db)
           in case chain_delete (buckets db ! idx) k of
                Some chain' \<Rightarrow>
                  (True, Some (db\<lparr>buckets := (buckets db)[idx := chain'], count := count db - 1\<rparr>))
              | None \<Rightarrow> (False, dbp))
      | _ \<Rightarrow> (False, dbp))"

definition db_exists :: "SimpleDB option \<Rightarrow> string option \<Rightarrow> bool" where
  "db_exists dbp keyp \<longleftrightarrow> db_get dbp keyp \<noteq> None"

subsection \<open>Utility\<close>

definition db_count :: "SimpleDB option \<Rightarrow> nat" where
  "db_count dbp = (case dbp of Some db \<Rightarrow> count db | None \<Rightarrow> 0)"

definition db_clear :: "SimpleDB option \<Rightarrow> SimpleDB option" where
  "db_clear dbp = map_option (\<lambda>db. db\<lparr>buckets := replicate (capacity db) [], count := 0\<rparr>) dbp"

text \<open>
  The inner loop of \<^verbatim>\<open>db_keys\<close> over one chain: each key is duplicated and appended to
  the array filled so far. \<open>None\<close>: a duplication failed.
\<close>

fun keys_chain :: "allocator \<Rightarrow> Entry list \<Rightarrow> string list \<Rightarrow> string list option \<times> allocator" where
  "keys_chain a [] arr = (Some arr, a)"
| "keys_chain a (e # es) arr =
     (case dup_str a (key e) of
        (None, a') \<Rightarrow> (None, a')
      | (Some d, a') \<Rightarrow> keys_chain a' es (arr @ [d]))"

text \<open>
  The outer loop, over the bucket indices still to visit; \<open>pos\<close> is the length of \<open>arr\<close>.
  The array has \<open>count\<close> slots; in a well-formed table the chains hold \<open>count\<close> entries
  in all, so that no write falls outside it.
\<close>

fun keys_loop :: "allocator \<Rightarrow> SimpleDB \<Rightarrow> nat list \<Rightarrow> string list \<Rightarrow> string list option \<times> allocator" where
  "keys_loop a db [] arr = (Some arr, a)"
| "keys_loop a db (i # is) arr =
     (if length arr < count db then
        (case keys_chain a (buckets db ! i) arr of
           (None, a') \<Rightarrow> (None, a')
         | (Some arr', a') \<Rightarrow> keys_loop a' db is arr')
      else (Some arr, a))"

text \<open>
  The result of \<^verbatim>\<open>db_keys\<close> is the returned pointer (\<open>None\<close> for \<^verbatim>\<open>NULL\<close>) and the
  number written to \<^verbatim>\<open>*out_count\<close>, which the caller supplies.
\<close>

definition db_keys :: "allocator \<Rightarrow> SimpleDB option \<Rightarrow> string list option \<times> nat \<times> allocator" where
  "db_keys a dbp =
     (case dbp of
        None \<Rightarrow> (None, 0, a)
      | Some db \<Rightarrow>
          if count db = 0 then (None, 0, a)
          else (case malloc a of (ok, a1) \<Rightarrow>
            if \<not> ok then (None, 0, a1)
            else (case keys_loop a1 db [0..<capacity db] [] of
                (None, a2) \<Rightarrow> (None, 0, a2)
              | (Some arr, a2) \<Rightarrow> (Some arr, length arr, a2))))"

text \<open>One turn of the loop of \<^verbatim>\<open>db_stats\<close>, for the chain of one bucket.\<close>

definition stats_bucket :: "Entry list \<Rightarrow> DBStats \<Rightarrow> DBStats" where
  "stats_bucket es s =
     (if es = [] then s
      else let chain = length es;
               s1 = s\<lparr>used_buckets := used_buckets s + 1\<rparr>;
               s2 = (if chain > 1 then s1\<lparr>total_collisions := total_collisions s1 + (chain - 1)\<rparr> else s1)
           in (if chain > max_chain_length s2 then s2\<lparr>max_chain_length := chain\<rparr> else s2))"

definition db_stats :: "SimpleDB option \<Rightarrow> DBStats" where
  "db_stats dbp =
     (let s = \<lparr>total_entries = 0, total_collisions = 0, max_chain_length = 0, used_buckets = 0\<rparr>
      in case dbp of
           None \<Rightarrow> s
         | Some db \<Rightarrow>
             fold (\<lambda>i s. stats_bucket (buckets db ! i) s) [0..<capacity db]
               (s\<lparr>total_entries := count db\<rparr>))"


section \<open>Well-formed tables\<close>

text \<open>
  The invariant of the table: the array has \<open>capacity\<close> slots, at least one; every entry
  sits in the bucket its key hashes to; no two entries have the same key; \<open>count\<close> is the
  number of entries.
\<close>

definition bucket_ok :: "nat \<Rightarrow> nat \<Rightarrow> Entry list \<Rightarrow> bool" where
  "bucket_ok cap i es \<longleftrightarrow> list_all (\<lambda>e. bucket_index (fnv1a (key e)) cap = i) es"

definition invar :: "SimpleDB \<Rightarrow> bool" where
  "invar db \<longleftrightarrow>
     length (buckets db) = capacity db \<and> 0 < capacity db \<and>
     list_all (\<lambda>i. bucket_ok (capacity db) i (buckets db ! i)) [0..<capacity db] \<and>
     distinct (map key (concat (buckets db))) \<and>
     count db = length (concat (buckets db))"

text \<open>A run of \<^verbatim>\<open>db_set\<close> calls, one per pair, that stops at the first call that fails.\<close>

fun set_many :: "allocator \<Rightarrow> SimpleDB option \<Rightarrow> (string \<times> string) list
    \<Rightarrow> bool \<times> SimpleDB option \<times> allocator" where
  "set_many a dbp [] = (True, dbp, a)"
| "set_many a dbp ((k, v) # kvs) =
     (case db_set a dbp (Some k) (Some v) of (ok, dbp', a') \<Rightarrow>
        if ok then set_many a' dbp' kvs else (False, dbp', a'))"

text \<open>
  The tables that \<^verbatim>\<open>db_create\<close> and calls of \<^verbatim>\<open>db_set\<close> produce, whether a call
  returns true or false (a call that fails after its rehash leaves the rehashed table).
\<close>

inductive set_reachable :: "SimpleDB \<Rightarrow> bool" where
  created: "db_create a = (Some db, a') \<Longrightarrow> set_reachable db"
| after_set: "set_reachable db \<Longrightarrow> db_set a (Some db) (Some k) (Some v) = (r, Some db', a')
    \<Longrightarrow> set_reachable db'"

text \<open>What the update branch of \<^verbatim>\<open>db_set\<close> does to an entry: only the value of key \<open>k\<close> changes.\<close>

definition upd :: "string \<Rightarrow> string \<Rightarrow> Entry \<Rightarrow> Entry" where
  "upd k v e = (if key e = k then e\<lparr>val := v\<rparr> else e)"

text \<open>The table that a \<^verbatim>\<open>rehash\<close> to \<open>n\<close> buckets leaves when its allocation succeeds.\<close>

definition rehashed :: "SimpleDB \<Rightarrow> nat \<Rightarrow> SimpleDB" where
  "rehashed db n =
     db\<lparr>buckets := fold (relink n) (concat (buckets db)) (replicate n []), capacity := n\<rparr>"

text \<open>
  The table on which \<^verbatim>\<open>db_set\<close> looks the key up: the load test runs first, before the
  chain is searched, and rehashes to twice the capacity when it fires.
\<close>

definition after_load_test :: "SimpleDB \<Rightarrow> SimpleDB" where
  "after_load_test db = (if load_exceeded db then rehashed db (capacity db * 2) else db)"

text \<open>The table that \<^verbatim>\<open>db_create\<close> returns when both of its allocations succeed.\<close>

definition empty_table :: SimpleDB where
  "empty_table = \<lparr>buckets = replicate INITIAL_CAPACITY [], capacity = INITIAL_CAPACITY, count = 0\<rparr>"

text \<open>The table that \<^verbatim>\<open>db_delete\<close> leaves when it finds the key.\<close>

definition without :: "string \<Rightarrow> SimpleDB \<Rightarrow> SimpleDB" where
  "without k db =
     db\<lparr>buckets := (buckets db)[bucket_index (fnv1a k) (capacity db) :=
          filter (\<lambda>e. key e \<noteq> k) (buckets db ! bucket_index (fnv1a k) (capacity db))],
        count := count db - 1\<rparr>"

section \<open>A table of forty-nine keys\<close>

text \<open>
  The allocators that grant and that refuse every request, and the tables that
  \<^verbatim>\<open>db_create\<close> followed by \<^verbatim>\<open>db_set\<close> of the first \<open>n\<close> of forty-nine keys, in
  this order, produces when every allocation succeeds.
\<close>

definition all_ok :: allocator where
  "all_ok = (\<lambda>_. True)"

definition none_ok :: allocator where
  "none_ok = (\<lambda>_. False)"

definition keys49 :: "string list" where
  "keys49 = [''k1'', ''k2'', ''k3'', ''k4'', ''k5'', ''k6'', ''k7'', ''k8'', ''k9'', ''k10'',
   ''k11'', ''k12'', ''k13'', ''k14'', ''k15'', ''k16'', ''k17'', ''k18'', ''k19'', ''k20'',
   ''k21'', ''k22'', ''k23'', ''k24'', ''k25'', ''k26'', ''k27'', ''k28'', ''k29'', ''k30'',
   ''k31'', ''k32'', ''k33'', ''k34'', ''k35'', ''k36'', ''k37'', ''k38'', ''k39'', ''k40'',
   ''k41'', ''k42'', ''k43'', ''k44'', ''k45'', ''k46'', ''k47'', ''k48'', ''k49'']"

definition pairs :: "nat \<Rightarrow> (string \<times> string) list" where
  "pairs n = map (\<lambda>k. (k, ''v'')) (take n keys49)"

definition filled :: "nat \<Rightarrow> bool \<times> SimpleDB option \<times> allocator" where
  "filled n = set_many all_ok (fst (db_create all_ok)) (pairs n)"

definition table_of :: "nat \<Rightarrow> SimpleDB" where
  "table_of n = the (fst (snd (filled n)))"

section \<open>Hashing and bucket selection\<close>

lemma bucket_index_less:
  assumes "0 < cap"
  shows "bucket_index h cap < cap"
proof -
  let ?m = "word_of_nat cap - 1 :: 64 word"
  have le: "unat (h AND ?m) \<le> unat ?m"
    by (rule word_and_le1 [THEN word_le_nat_alt [THEN iffD1]])
  show ?thesis
  proof (cases "(word_of_nat cap :: 64 word) = 0")
    case True
    then have "2 ^ 64 dvd cap"
      by (simp add: word_of_nat_eq_0_iff)
    with assms have "2 ^ 64 \<le> cap"
      by (auto dest: dvd_imp_le)
    moreover have "unat (h AND ?m) < 2 ^ 64"
      using unsigned_less [of "h AND ?m"] by simp
    ultimately show ?thesis
      by (simp add: bucket_index_def)
  next
    case False
    then have "unat ?m = unat (word_of_nat cap :: 64 word) - 1"
      by (rule unat_minus_one)
    moreover have "unat (word_of_nat cap :: 64 word) \<le> cap"
      by (simp add: unat_of_nat)
    moreover have "unat (word_of_nat cap :: 64 word) \<noteq> 0"
      using False by (simp add: unat_eq_0)
    ultimately show ?thesis
      using le by (simp add: bucket_index_def)
  qed
qed

section \<open>Lists of chains\<close>

lemma concat_update:
  "i < length bs \<Longrightarrow> concat (bs[i := c]) = concat (take i bs) @ c @ concat (drop (Suc i) bs)"
  by (simp add: upd_conv_take_nth_drop)

lemma concat_split_nth:
  "i < length bs \<Longrightarrow> concat bs = concat (take i bs) @ bs ! i @ concat (drop (Suc i) bs)"
  by (metis concat.simps(2) concat_append id_take_nth_drop)

lemma fold_fold_concat: "fold (fold f) xss s = fold f (concat xss) s"
  by (induction xss arbitrary: s) auto

lemma fold_index_concat:
  "fold (\<lambda>i nb. fold f (bs ! i) nb) [0..<length bs] nb0 = fold f (concat bs) nb0"
proof -
  have "fold (\<lambda>i nb. fold f (bs ! i) nb) [0..<length bs] = fold (fold f) (map ((!) bs) [0..<length bs])"
    by (simp add: fold_map comp_def)
  then show ?thesis by (simp add: map_nth fold_fold_concat)
qed

section \<open>Rehash\<close>

lemma length_fold_relink: "length (fold (relink n) es nb) = length nb"
  by (induction es arbitrary: nb) (auto simp: relink_def Let_def)

lemma nth_fold_relink:
  "0 < n \<Longrightarrow> length nb = n \<Longrightarrow> j < n \<Longrightarrow>
   fold (relink n) es nb ! j = rev (filter (\<lambda>e. bucket_index (fnv1a (key e)) n = j) es) @ nb ! j"
proof (induction es arbitrary: nb)
  case Nil
  then show ?case by simp
next
  case (Cons e es)
  let ?idx = "bucket_index (fnv1a (key e)) n"
  have idx: "?idx < n" using Cons.prems(1) by (rule bucket_index_less)
  have len: "length (relink n e nb) = n"
    using Cons.prems(2) by (simp add: relink_def Let_def)
  have "fold (relink n) (e # es) nb ! j = fold (relink n) es (relink n e nb) ! j"
    by simp
  also have "\<dots> = rev (filter (\<lambda>e. bucket_index (fnv1a (key e)) n = j) es) @ relink n e nb ! j"
    using Cons.IH [OF Cons.prems(1) len Cons.prems(3)] .
  also have "relink n e nb ! j = (if ?idx = j then e # nb ! j else nb ! j)"
    using idx Cons.prems by (auto simp: relink_def Let_def)
  finally show ?case by simp
qed

lemma malloc_simps [simp]: "malloc a = (a 0, \<lambda>n. a (Suc n))"
  by (simp add: malloc_def)

lemma length_concat_cons_update:
  "i < length bs \<Longrightarrow> length (concat (bs[i := e # bs ! i])) = Suc (length (concat bs))"
  using concat_split_nth [of i bs] by (simp add: concat_update)

lemma set_concat_cons_update:
  "i < length bs \<Longrightarrow> set (concat (bs[i := e # bs ! i])) = insert e (set (concat bs))"
  using arg_cong [OF concat_split_nth [of i bs], of set] by (simp add: concat_update) 

lemma length_concat_fold_relink:
  "0 < n \<Longrightarrow> length nb = n \<Longrightarrow>
   length (concat (fold (relink n) es nb)) = length es + length (concat nb)"
proof (induction es arbitrary: nb)
  case Nil
  then show ?case by simp
next
  case (Cons e es)
  have idx: "bucket_index (fnv1a (key e)) n < length nb"
    using Cons.prems bucket_index_less by simp
  have "length (relink n e nb) = n"
    using Cons.prems by (simp add: relink_def Let_def)
  from Cons.IH [OF Cons.prems(1) this] idx show ?case
    by (simp add: relink_def Let_def length_concat_cons_update del: length_concat)
qed

lemma set_concat_fold_relink:
  "0 < n \<Longrightarrow> length nb = n \<Longrightarrow>
   set (concat (fold (relink n) es nb)) = set es \<union> set (concat nb)"
proof (induction es arbitrary: nb)
  case Nil
  then show ?case by simp
next
  case (Cons e es)
  have idx: "bucket_index (fnv1a (key e)) n < length nb"
    using Cons.prems bucket_index_less by simp
  have "length (relink n e nb) = n"
    using Cons.prems by (simp add: relink_def Let_def)
  from Cons.IH [OF Cons.prems(1) this] idx show ?case
    by (simp add: relink_def Let_def set_concat_cons_update del: set_concat)
qed

lemma rehash_fail: "\<not> a 0 \<Longrightarrow> rehash a db n = (False, db, \<lambda>i. a (Suc i))"
  by (simp add: rehash_def calloc_def)

lemma rehash_ok:
  "a 0 \<Longrightarrow> length (buckets db) = capacity db \<Longrightarrow>
   rehash a db n = (True, db\<lparr>buckets := fold (relink n) (concat (buckets db)) (replicate n []), capacity := n\<rparr>, \<lambda>i. a (Suc i))"
  using fold_index_concat [of "relink n" "buckets db" "replicate n []"]
  by (simp add: rehash_def calloc_def)

lemma invar_rehashed:
  assumes "invar db" "0 < n"
  shows "invar (rehashed db n)"
proof -
  let ?es = "concat (buckets db)"
  let ?nb = "fold (relink n) ?es (replicate n [])"
  have len: "length ?nb = n" by (simp add: length_fold_relink)
  have ok: "bucket_ok n j (?nb ! j)" if "j < n" for j
    using that assms(2) by (simp add: nth_fold_relink bucket_ok_def list_all_iff)
  have setc: "set (concat ?nb) = set ?es"
    using assms(2) by (simp add: set_concat_fold_relink del: set_concat)
  have lenc: "length (concat ?nb) = length ?es"
    using assms(2) by (simp add: length_concat_fold_relink del: length_concat)
  have "distinct (map key ?es)" using assms(1) by (simp add: invar_def)
  then have "card (key ` set ?es) = length ?es"
    using distinct_card [of "map key ?es"] by simp
  then have "card (set (map key (concat ?nb))) = length (map key (concat ?nb))"
    using setc lenc by (simp del: set_concat length_concat)
  then have dist: "distinct (map key (concat ?nb))"
    by (rule card_distinct)
  have "count db = length ?es" using assms(1) by (simp add: invar_def)
  with len ok dist lenc assms(2) show ?thesis
    by (simp add: invar_def rehashed_def list_all_iff del: length_concat)
qed

section \<open>Chains and lookup\<close>

lemma chain_get_None_iff: "chain_get es k = None \<longleftrightarrow> k \<notin> key ` set es"
  by (induction es) auto

lemma chain_get_Some_iff:
  "distinct (map key es) \<Longrightarrow>
   chain_get es k = Some v \<longleftrightarrow> (\<exists>e\<in>set es. key e = k \<and> val e = v)"
  by (induction es) (auto simp: rev_image_eqI)

lemma chain_set_None_iff: "chain_set a es k v = None \<longleftrightarrow> k \<notin> key ` set es"
  by (induction es) (auto simp: dup_str_def split: prod.splits)

lemma map_upd_id: "k \<notin> key ` set es \<Longrightarrow> map (upd k v) es = es"
  by (induction es) (auto simp: upd_def)

lemma chain_set_found:
  "k \<in> key ` set es \<Longrightarrow> distinct (map key es) \<Longrightarrow>
   chain_set a es k v = Some (a 0, if a 0 then map (upd k v) es else es, \<lambda>i. a (Suc i))"
proof (induction es)
  case Nil
  then show ?case by simp
next
  case (Cons e es)
  show ?case
  proof (cases "key e = k")
    case True
    with Cons.prems have "k \<notin> key ` set es" by auto
    then have "map (upd k v) es = es" by (rule map_upd_id)
    with True show ?thesis by (simp add: dup_str_def upd_def)
  next
    case False
    with Cons show ?thesis by (auto simp: upd_def)
  qed
qed

lemma map_key_upd: "map key (map (upd k v) es) = map key es"
  by (induction es) (auto simp: upd_def)

lemma chain_get_upd:
  "chain_get (map (upd k v) es) k' = (if k' = k \<and> k \<in> key ` set es then Some v else chain_get es k')"
  by (induction es) (auto simp: upd_def)

lemma invar_lengthD: "invar db \<Longrightarrow> length (buckets db) = capacity db"
  by (simp add: invar_def)

lemma invar_capD: "invar db \<Longrightarrow> 0 < capacity db"
  by (simp add: invar_def)

lemma invar_home:
  assumes "invar db" "e \<in> set (concat (buckets db))"
  shows "e \<in> set (buckets db ! bucket_index (fnv1a (key e)) (capacity db))"
proof -
  from assms(2) obtain b where b: "b \<in> set (buckets db)" "e \<in> set b" by auto
  then obtain i where i: "i < length (buckets db)" "b = buckets db ! i"
    by (auto simp: in_set_conv_nth)
  with assms(1) have "bucket_ok (capacity db) i b"
    by (simp add: invar_def list_all_iff)
  with b(2) have "bucket_index (fnv1a (key e)) (capacity db) = i"
    by (simp add: bucket_ok_def list_all_iff)
  with i b(2) show ?thesis by simp
qed

lemma invar_bucket_distinct:
  assumes "invar db" "i < capacity db"
  shows "distinct (map key (buckets db ! i))"
proof -
  have "distinct (map key (concat (buckets db)))" using assms(1) by (simp add: invar_def)
  moreover have "i < length (buckets db)" using assms by (simp add: invar_def)
  ultimately show ?thesis
    using concat_split_nth [of i "buckets db"] by (metis distinct_append map_append)
qed

lemma invar_bucket_subset:
  assumes "invar db" "i < capacity db"
  shows "set (buckets db ! i) \<subseteq> set (concat (buckets db))"
proof -
  have "buckets db ! i \<in> set (buckets db)"
    using assms by (simp add: invar_def)
  then show ?thesis by auto
qed

lemma get_Some_iff:
  assumes "invar db"
  shows "db_get (Some db) (Some k) = Some v \<longleftrightarrow>
    (\<exists>e\<in>set (concat (buckets db)). key e = k \<and> val e = v)"
proof -
  let ?i = "bucket_index (fnv1a k) (capacity db)"
  have i: "?i < capacity db" using assms by (simp add: invar_capD bucket_index_less)
  have "db_get (Some db) (Some k) = Some v \<longleftrightarrow> (\<exists>e\<in>set (buckets db ! ?i). key e = k \<and> val e = v)"
    using invar_bucket_distinct [OF assms i] by (simp add: db_get_def chain_get_Some_iff)
  also have "\<dots> \<longleftrightarrow> (\<exists>e\<in>set (concat (buckets db)). key e = k \<and> val e = v)"
    using invar_home [OF assms] invar_bucket_subset [OF assms i]
    by (auto simp del: set_concat)
  finally show ?thesis .
qed

lemma get_None_iff:
  assumes "invar db"
  shows "db_get (Some db) (Some k) = None \<longleftrightarrow> k \<notin> key ` set (concat (buckets db))"
proof -
  let ?i = "bucket_index (fnv1a k) (capacity db)"
  have i: "?i < capacity db" using assms by (simp add: invar_capD bucket_index_less)
  have "db_get (Some db) (Some k) = None \<longleftrightarrow> k \<notin> key ` set (buckets db ! ?i)"
    by (simp add: db_get_def chain_get_None_iff)
  also have "\<dots> \<longleftrightarrow> k \<notin> key ` set (concat (buckets db))"
    using invar_home [OF assms] invar_bucket_subset [OF assms i]
    by (auto simp del: set_concat) 
  finally show ?thesis .
qed

section \<open>Update and insertion\<close>

lemma entries_rehashed:
  "0 < n \<Longrightarrow> set (concat (buckets (rehashed db n))) = set (concat (buckets db))"
  by (simp add: rehashed_def set_concat_fold_relink del: set_concat)

lemma get_rehashed:
  assumes "invar db" "0 < n"
  shows "db_get (Some (rehashed db n)) (Some k) = db_get (Some db) (Some k)"
proof (cases "db_get (Some db) (Some k)")
  case None
  then have "k \<notin> key ` set (concat (buckets db))"
    using get_None_iff [OF assms(1)] by blast
  then have "k \<notin> key ` set (concat (buckets (rehashed db n)))"
    by (simp add: entries_rehashed [OF assms(2)] del: set_concat)
  then have "db_get (Some (rehashed db n)) (Some k) = None"
    using get_None_iff [OF invar_rehashed [OF assms]] by blast
  with None show ?thesis by simp
next
  case (Some v)
  then have "\<exists>e\<in>set (concat (buckets db)). key e = k \<and> val e = v"
    using get_Some_iff [OF assms(1)] by blast
  then have "\<exists>e\<in>set (concat (buckets (rehashed db n))). key e = k \<and> val e = v"
    by (simp add: entries_rehashed [OF assms(2)] del: set_concat)
  then have "db_get (Some (rehashed db n)) (Some k) = Some v"
    using get_Some_iff [OF invar_rehashed [OF assms]] by blast
  with Some show ?thesis by simp
qed

lemma buckets_upd:
  assumes "invar db"
  shows "(buckets db)[bucket_index (fnv1a k) (capacity db) :=
            map (upd k v) (buckets db ! bucket_index (fnv1a k) (capacity db))]
         = map (map (upd k v)) (buckets db)"
proof (rule nth_equalityI)
  show "length ((buckets db)[bucket_index (fnv1a k) (capacity db) :=
            map (upd k v) (buckets db ! bucket_index (fnv1a k) (capacity db))])
        = length (map (map (upd k v)) (buckets db))" by simp
next
  fix j
  let ?i = "bucket_index (fnv1a k) (capacity db)"
  assume "j < length ((buckets db)[?i := map (upd k v) (buckets db ! ?i)])"
  then have j: "j < capacity db" using assms by (simp add: invar_def)
  show "(buckets db)[?i := map (upd k v) (buckets db ! ?i)] ! j = map (map (upd k v)) (buckets db) ! j"
  proof (cases "j = ?i")
    case True
    with j assms show ?thesis by (simp add: invar_def)
  next
    case False
    have "k \<notin> key ` set (buckets db ! j)"
    proof
      assume "k \<in> key ` set (buckets db ! j)"
      then obtain e where e: "e \<in> set (buckets db ! j)" "key e = k" by auto
      from assms j have "bucket_ok (capacity db) j (buckets db ! j)"
        by (simp add: invar_def list_all_iff)
      with e have "?i = j" by (auto simp: bucket_ok_def list_all_iff)
      with False show False by simp
    qed
    then have "map (upd k v) (buckets db ! j) = buckets db ! j" by (rule map_upd_id)
    with False j assms show ?thesis by (simp add: invar_def)
  qed
qed

lemma set_in_bucket_update:
  assumes "invar db" "k \<in> key ` set (concat (buckets db))"
  shows "set_in_bucket a db k v =
    (a 0, if a 0 then db\<lparr>buckets := map (map (upd k v)) (buckets db)\<rparr> else db, \<lambda>i. a (Suc i))"
proof -
  let ?i = "bucket_index (fnv1a k) (capacity db)"
  have i: "?i < capacity db" using assms by (simp add: invar_capD bucket_index_less)
  from assms(2) obtain e where "e \<in> set (concat (buckets db))" "key e = k" by auto
  with invar_home [OF assms(1), of e] have "k \<in> key ` set (buckets db ! ?i)" by auto
  then have "chain_set a (buckets db ! ?i) k v =
      Some (a 0, if a 0 then map (upd k v) (buckets db ! ?i) else buckets db ! ?i, \<lambda>i. a (Suc i))"
    using invar_bucket_distinct [OF assms(1) i] by (rule chain_set_found)
  then show ?thesis
    using buckets_upd [OF assms(1), of k v] by (simp add: set_in_bucket_def Let_def)
qed

lemma invar_upd:
  assumes "invar db"
  shows "invar (db\<lparr>buckets := map (map (upd k v)) (buckets db)\<rparr>)"
proof -
  have c: "concat (map (map (upd k v)) (buckets db)) = map (upd k v) (concat (buckets db))"
    by (simp add: map_concat)
  have "bucket_ok c i (map (upd k v) es) = bucket_ok c i es" for c i es
    by (induction es) (auto simp: bucket_ok_def upd_def)
  moreover have "key \<circ> upd k v = key"
    by (auto simp: upd_def)
  ultimately show ?thesis
    using assms by (simp add: invar_def c list_all_iff del: length_concat)
qed

lemma get_upd:
  assumes "invar db" "k \<in> key ` set (concat (buckets db))"
  shows "db_get (Some (db\<lparr>buckets := map (map (upd k v)) (buckets db)\<rparr>)) (Some k')
       = (if k' = k then Some v else db_get (Some db) (Some k'))"
proof -
  let ?i = "bucket_index (fnv1a k') (capacity db)"
  have i: "?i < length (buckets db)" using assms(1) by (simp add: invar_def bucket_index_less)
  have "k \<in> key ` set (buckets db ! ?i)" if "k' = k"
  proof -
    from assms(2) obtain e where "e \<in> set (concat (buckets db))" "key e = k" by auto
    with invar_home [OF assms(1), of e] that show ?thesis by auto
  qed
  with i show ?thesis by (auto simp: db_get_def chain_get_upd)
qed

lemma set_in_bucket_insert:
  assumes "invar db" "k \<notin> key ` set (concat (buckets db))" "a 0" "a (Suc 0)" "a (Suc (Suc 0))"
  shows "set_in_bucket a db k v =
    (True,
     db\<lparr>buckets := (buckets db)[bucket_index (fnv1a k) (capacity db) :=
          \<lparr>key = k, val = v\<rparr> # buckets db ! bucket_index (fnv1a k) (capacity db)],
        count := count db + 1\<rparr>,
     \<lambda>i. a (Suc (Suc (Suc i))))"
proof -
  let ?i = "bucket_index (fnv1a k) (capacity db)"
  have i: "?i < capacity db" using assms by (simp add: invar_capD bucket_index_less)
  have "k \<notin> key ` set (buckets db ! ?i)"
    using assms(2) invar_bucket_subset [OF assms(1) i] by (auto simp del: set_concat)
  then have "chain_set a (buckets db ! ?i) k v = None" by (simp add: chain_set_None_iff)
  with assms(3-5) show ?thesis
    by (simp add: set_in_bucket_def Let_def insert_head_def dup_str_def)
qed

lemma set_in_bucket_insert_fail:
  assumes "invar db" "k \<notin> key ` set (concat (buckets db))" "\<not> (a 0 \<and> a (Suc 0) \<and> a (Suc (Suc 0)))"
  shows "\<exists>a'. set_in_bucket a db k v = (False, db, a')"
proof -
  let ?i = "bucket_index (fnv1a k) (capacity db)"
  have i: "?i < capacity db" using assms by (simp add: invar_capD bucket_index_less)
  have "k \<notin> key ` set (buckets db ! ?i)"
    using assms(2) invar_bucket_subset [OF assms(1) i] by (auto simp del: set_concat)
  then have "chain_set a (buckets db ! ?i) k v = None" by (simp add: chain_set_None_iff)
  with assms(3) show ?thesis
    by (auto simp: set_in_bucket_def Let_def insert_head_def dup_str_def)
qed

lemma invar_insert:
  assumes "invar db" "k \<notin> key ` set (concat (buckets db))"
  shows "invar (db\<lparr>buckets := (buckets db)[bucket_index (fnv1a k) (capacity db) :=
          \<lparr>key = k, val = v\<rparr> # buckets db ! bucket_index (fnv1a k) (capacity db)],
        count := count db + 1\<rparr>)"
proof -
  let ?i = "bucket_index (fnv1a k) (capacity db)"
  let ?e = "\<lparr>key = k, val = v\<rparr>"
  let ?bs = "(buckets db)[?i := ?e # buckets db ! ?i]"
  have i: "?i < length (buckets db)" using assms(1) by (simp add: invar_def bucket_index_less)
  have ok: "bucket_ok (capacity db) j (?bs ! j)" if "j < capacity db" for j
  proof -
    from assms(1) that have "bucket_ok (capacity db) j (buckets db ! j)"
      by (simp add: invar_def list_all_iff)
    with that i show ?thesis
      by (cases "j = ?i") (auto simp: bucket_ok_def)
  qed
  have "distinct (map key (concat (buckets db)))" using assms(1) by (simp add: invar_def)
  with assms(2) have dist: "distinct (map key (concat ?bs))"
    unfolding concat_update [OF i] using arg_cong [OF concat_split_nth [OF i], of "map key"]
      arg_cong [OF concat_split_nth [OF i], of "set"]
    by (auto simp del: set_concat)
  from assms(1) i ok dist show ?thesis
    by (simp add: invar_def list_all_iff length_concat_cons_update del: length_concat)
qed

lemma get_insert:
  assumes "invar db"
  shows "db_get (Some (db\<lparr>buckets := (buckets db)[bucket_index (fnv1a k) (capacity db) :=
          \<lparr>key = k, val = v\<rparr> # buckets db ! bucket_index (fnv1a k) (capacity db)],
        count := count db + 1\<rparr>)) (Some k')
       = (if k' = k then Some v else db_get (Some db) (Some k'))"
proof -
  have "bucket_index (fnv1a k) (capacity db) < length (buckets db)"
    using assms(1) by (simp add: invar_def bucket_index_less)
  then show ?thesis
    by (auto simp: db_get_def Let_def nth_list_update)
qed

lemma db_set_Some:
  "db_set a (Some db) (Some k) (Some v) =
     (if load_exceeded db then
        (case rehash a db (capacity db * 2) of (ok, db1, a1) \<Rightarrow>
           if \<not> ok then (False, Some db1, a1)
           else (case set_in_bucket a1 db1 k v of (r, db2, a2) \<Rightarrow> (r, Some db2, a2)))
      else (case set_in_bucket a db k v of (r, db2, a2) \<Rightarrow> (r, Some db2, a2)))"
  by (simp add: db_set_def)

lemma rehash_rehashed:
  "a 0 \<Longrightarrow> length (buckets db) = capacity db \<Longrightarrow>
   rehash a db n = (True, rehashed db n, \<lambda>i. a (Suc i))"
  by (simp add: rehash_ok rehashed_def)

lemma db_set_success_base:
  assumes "invar db" "db_set a (Some db) (Some k) (Some v) = (True, dbp', a')"
  shows "\<exists>db' a1. dbp' = Some db' \<and>
    set_in_bucket a1 (after_load_test db) k v = (True, db', a')"
proof (cases "load_exceeded db")
  case False
  with assms(2) show ?thesis
    by (auto simp: db_set_Some after_load_test_def split: prod.splits)
next
  case True
  show ?thesis
  proof (cases "a 0")
    case False
    with True assms(2) show ?thesis
      by (simp add: db_set_Some rehash_fail)
  next
    case a0: True
    from assms(1) have "length (buckets db) = capacity db" by (rule invar_lengthD)
    with a0 True assms(2) show ?thesis
      by (auto simp: db_set_Some rehash_rehashed after_load_test_def split: prod.splits)
  qed
qed

lemma invar_base:
  assumes "invar db"
  shows "invar (after_load_test db)"
  unfolding after_load_test_def using assms invar_rehashed [OF assms, of "capacity db * 2"] invar_capD [OF assms] by simp

lemma get_base:
  assumes "invar db"
  shows "db_get (Some (after_load_test db)) (Some k)
    = db_get (Some db) (Some k)"
  unfolding after_load_test_def using get_rehashed [OF assms, of "capacity db * 2"] invar_capD [OF assms] by simp

lemma set_in_bucket_success:
  assumes "invar db" "set_in_bucket a db k v = (True, db', a')"
  shows "invar db' \<and> capacity db' = capacity db
    \<and> (\<forall>k'. db_get (Some db') (Some k') = (if k' = k then Some v else db_get (Some db) (Some k')))
    \<and> (if db_get (Some db) (Some k) = None
        then count db' = count db + 1
          \<and> buckets db' = (buckets db)[bucket_index (fnv1a k) (capacity db) :=
                \<lparr>key = k, val = v\<rparr> # buckets db ! bucket_index (fnv1a k) (capacity db)]
        else count db' = count db \<and> buckets db' = map (map (upd k v)) (buckets db))"
proof (cases "k \<in> key ` set (concat (buckets db))")
  case True
  then have present: "db_get (Some db) (Some k) \<noteq> None"
    using get_None_iff [OF assms(1)] by blast
  from set_in_bucket_update [OF assms(1) True, of a v] assms(2)
  have db': "db' = db\<lparr>buckets := map (map (upd k v)) (buckets db)\<rparr>"
    by (auto split: if_splits)
  show ?thesis
    using present invar_upd [OF assms(1), of k v] get_upd [OF assms(1) True, of v]
    unfolding db' by simp
next
  case False
  then have absent: "db_get (Some db) (Some k) = None"
    using get_None_iff [OF assms(1)] by blast
  have all: "a 0 \<and> a (Suc 0) \<and> a (Suc (Suc 0))"
    using set_in_bucket_insert_fail [OF assms(1) False, of a v] assms(2) by auto
  then have db': "db' = db\<lparr>buckets := (buckets db)[bucket_index (fnv1a k) (capacity db) :=
          \<lparr>key = k, val = v\<rparr> # buckets db ! bucket_index (fnv1a k) (capacity db)],
        count := count db + 1\<rparr>"
    using set_in_bucket_insert [OF assms(1) False, of a v] assms(2) by simp
  show ?thesis
    using absent invar_insert [OF assms(1) False, of v] get_insert [OF assms(1), of k v]
    unfolding db' by simp
qed

lemma count_rehashed [simp]: "count (rehashed db n) = count db"
  by (simp add: rehashed_def)

lemma capacity_rehashed [simp]: "capacity (rehashed db n) = n"
  by (simp add: rehashed_def)

lemma count_after_load_test [simp]: "count (after_load_test db) = count db"
  by (simp add: after_load_test_def)

lemma capacity_after_load_test:
  "capacity (after_load_test db) = (if load_exceeded db then capacity db * 2 else capacity db)"
  by (simp add: after_load_test_def)

lemma db_set_success:
  assumes "invar db" "db_set a (Some db) (Some k) (Some v) = (True, dbp', a')"
  shows "\<exists>db'. dbp' = Some db' \<and> invar db'
    \<and> capacity db' = capacity (after_load_test db)
    \<and> (\<forall>k'. db_get (Some db') (Some k') = (if k' = k then Some v else db_get (Some db) (Some k')))
    \<and> (if db_get (Some db) (Some k) = None
        then count db' = count db + 1
          \<and> buckets db' = (buckets (after_load_test db))
                [bucket_index (fnv1a k) (capacity (after_load_test db)) :=
                   \<lparr>key = k, val = v\<rparr> #
                   buckets (after_load_test db) ! bucket_index (fnv1a k) (capacity (after_load_test db))]
        else count db' = count db \<and> buckets db' = map (map (upd k v)) (buckets (after_load_test db)))"
proof -
  from db_set_success_base [OF assms] obtain db' a1 where
    db': "dbp' = Some db'" "set_in_bucket a1 (after_load_test db) k v = (True, db', a')" by blast
  from set_in_bucket_success [OF invar_base [OF assms(1)] db'(2)] db'(1)
  show ?thesis
    unfolding get_base [OF assms(1)] by simp
qed

lemma invar_empty_table: "invar empty_table"
  by (simp add: invar_def empty_table_def INITIAL_CAPACITY_def list_all_iff bucket_ok_def)

lemma db_create_ok:
  "a 0 \<Longrightarrow> a (Suc 0) \<Longrightarrow> db_create a = (Some empty_table, \<lambda>i. a (Suc (Suc i)))"
  by (simp add: db_create_def calloc_def empty_table_def)

lemma db_create_Some: "db_create a = (Some db, a') \<Longrightarrow> db = empty_table"
  by (auto simp: db_create_def calloc_def empty_table_def split: if_splits)

lemma load_step:
  assumes "4 * count db \<le> 3 * capacity db" "0 < capacity db"
    "capacity db' = capacity (after_load_test db)" "count db' \<le> count db + 1"
  shows "4 * count db' \<le> 3 * capacity db'"
  using assms by (auto simp: after_load_test_def load_exceeded_def split: if_splits)

lemma set_in_bucket_failure:
  assumes "invar db" "set_in_bucket a db k v = (False, db', a')"
  shows "db' = db"
proof (cases "k \<in> key ` set (concat (buckets db))")
  case True
  from set_in_bucket_update [OF assms(1) True, of a v] assms(2) show ?thesis
    by (auto split: if_splits)
next
  case False
  show ?thesis
  proof (cases "a 0 \<and> a (Suc 0) \<and> a (Suc (Suc 0))")
    case True
    with set_in_bucket_insert [OF assms(1) False, of a v] assms(2) show ?thesis by simp
  next
    case nok: False
    from set_in_bucket_insert_fail [OF assms(1) False nok, of v] assms(2) show ?thesis by auto
  qed
qed

lemma db_set_failure:
  assumes "invar db" "db_set a (Some db) (Some k) (Some v) = (False, dbp', a')"
  shows "dbp' = Some db \<or> dbp' = Some (after_load_test db)"
proof (cases "load_exceeded db")
  case False
  then have "after_load_test db = db" by (simp add: after_load_test_def)
  with False assms(2) set_in_bucket_failure [OF assms(1), of a k v] show ?thesis
    by (auto simp: db_set_Some split: prod.splits)
next
  case True
  show ?thesis
  proof (cases "a 0")
    case False
    with True assms(2) show ?thesis
      by (simp add: db_set_Some rehash_fail)
  next
    case a0: True
    from assms(1) have len: "length (buckets db) = capacity db" by (rule invar_lengthD)
    from True have base: "after_load_test db = rehashed db (capacity db * 2)"
      by (simp add: after_load_test_def)
    from a0 True assms(2) len base
      set_in_bucket_failure [OF invar_base [OF assms(1)], of "\<lambda>i. a (Suc i)" k v]
    show ?thesis
      by (auto simp: db_set_Some rehash_rehashed split: prod.splits)
  qed
qed

lemma db_set_invar:
  assumes "invar db" "db_set a (Some db) (Some k) (Some v) = (r, dbp', a')"
  shows "\<exists>db'. dbp' = Some db' \<and> invar db'"
proof (cases r)
  case True
  with db_set_success [OF assms(1), of a k v dbp' a'] assms(2) show ?thesis by auto
next
  case False
  with db_set_failure [OF assms(1), of a k v dbp' a'] assms(2) invar_base [OF assms(1)] assms(1)
  show ?thesis by auto
qed

lemma db_set_step:
  assumes "invar db" "4 * count db \<le> 3 * capacity db"
    "db_set a (Some db) (Some k) (Some v) = (r, Some db', a')"
  shows "invar db' \<and> (capacity db' = capacity db \<or> capacity db' = 2 * capacity db)
    \<and> 4 * count db' \<le> 3 * capacity db'"
proof (cases r)
  case True
  with db_set_success [OF assms(1), of a k v "Some db'" a'] assms(3)
  have inv': "invar db'" and cap': "capacity db' = capacity (after_load_test db)"
    and cnt: "count db' \<le> count db + 1"
    by (auto split: if_splits)
  from cap' have "capacity db' = capacity db \<or> capacity db' = 2 * capacity db"
    by (auto simp: capacity_after_load_test)
  moreover have "4 * count db' \<le> 3 * capacity db'"
    using assms(2) invar_capD [OF assms(1)] cap' cnt by (rule load_step)
  ultimately show ?thesis using inv' by simp
next
  case False
  with db_set_failure [OF assms(1), of a k v "Some db'" a'] assms(3)
  have "db' = db \<or> db' = after_load_test db" by simp
  then show ?thesis
  proof
    assume "db' = db"
    with assms(1,2) show ?thesis by simp
  next
    assume d: "db' = after_load_test db"
    have "capacity db' = capacity db \<or> capacity db' = 2 * capacity db"
      unfolding d by (auto simp: capacity_after_load_test)
    moreover from this assms(2) have "4 * count db' \<le> 3 * capacity db'"
      unfolding d by auto
    ultimately show ?thesis using invar_base [OF assms(1)] d by simp
  qed
qed

lemma set_reachable_facts:
  "set_reachable db \<Longrightarrow>
   invar db \<and> 4 * count db \<le> 3 * capacity db \<and> (\<exists>n. capacity db = 2 ^ n) \<and> 64 \<le> capacity db"
proof (induction rule: set_reachable.induct)
  case (created a db a')
  then have "db = empty_table" by (rule db_create_Some)
  moreover have "\<exists>n. capacity empty_table = 2 ^ n"
    by (rule exI [of _ 6]) (simp add: empty_table_def INITIAL_CAPACITY_def)
  moreover have "count empty_table = 0" "capacity empty_table = 64"
    by (simp_all add: empty_table_def INITIAL_CAPACITY_def)
  ultimately show ?case
    using invar_empty_table by simp
next
  case (after_set db a k v r db' a')
  then have inv: "invar db" and load: "4 * count db \<le> 3 * capacity db"
    and cap: "64 \<le> capacity db" by simp_all
  from after_set.IH obtain n where n: "capacity db = 2 ^ n" by blast
  from db_set_step [OF inv load after_set.hyps(2)]
  have inv': "invar db'" and cap': "capacity db' = capacity db \<or> capacity db' = 2 * capacity db"
    and load': "4 * count db' \<le> 3 * capacity db'"
    by simp_all
  from cap' n have "capacity db' = 2 ^ n \<or> capacity db' = 2 ^ Suc n" by auto
  then have "\<exists>m. capacity db' = 2 ^ m" by blast
  moreover from cap cap' have "64 \<le> capacity db'" by auto
  ultimately show ?case using inv' load' by simp
qed

lemma set_many_invar:
  "invar db \<Longrightarrow> set_many a (Some db) kvs = (r, dbp', a') \<Longrightarrow> \<exists>db'. dbp' = Some db' \<and> invar db'"
proof (induction kvs arbitrary: db a)
  case Nil
  then show ?case by auto
next
  case (Cons kv kvs)
  obtain k v where kv: "kv = (k, v)" by (cases kv)
  obtain ok dbp1 a1 where s: "db_set a (Some db) (Some k) (Some v) = (ok, dbp1, a1)"
    by (cases "db_set a (Some db) (Some k) (Some v)")
  from db_set_invar [OF Cons.prems(1) s] obtain db1 where db1: "dbp1 = Some db1" "invar db1"
    by blast
  show ?case
  proof (cases ok)
    case True
    with Cons.prems(2) kv s db1 have "set_many a1 (Some db1) kvs = (r, dbp', a')" by simp
    from Cons.IH [OF db1(2) this] show ?thesis .
  next
    case False
    with Cons.prems(2) kv s db1 show ?thesis by auto
  qed
qed

lemma set_many_fresh:
  "invar db \<Longrightarrow> distinct (map fst kvs) \<Longrightarrow>
   \<forall>k\<in>fst ` set kvs. db_get (Some db) (Some k) = None \<Longrightarrow>
   4 * (count db + length kvs) \<le> 3 * capacity db \<Longrightarrow>
   set_many a (Some db) kvs = (True, dbp', a') \<Longrightarrow>
   \<exists>db'. dbp' = Some db' \<and> invar db' \<and> capacity db' = capacity db
     \<and> count db' = count db + length kvs
     \<and> (\<forall>k. k \<notin> fst ` set kvs \<longrightarrow> db_get (Some db') (Some k) = db_get (Some db) (Some k))"
proof (induction kvs arbitrary: db a)
  case Nil
  then show ?case by auto
next
  case (Cons kv kvs)
  obtain k v where kv: "kv = (k, v)" by (cases kv)
  obtain ok dbp1 a1 where s: "db_set a (Some db) (Some k) (Some v) = (ok, dbp1, a1)"
    by (cases "db_set a (Some db) (Some k) (Some v)")
  from Cons.prems(5) kv s have ok: "ok" and rest: "set_many a1 dbp1 kvs = (True, dbp', a')"
    by (auto split: if_splits)
  from Cons.prems(3) kv have absent: "db_get (Some db) (Some k) = None" by simp
  from Cons.prems(4) have noload: "\<not> load_exceeded db" by (simp add: load_exceeded_def)
  from db_set_success [OF Cons.prems(1), of a k v dbp1 a1] s ok absent noload
  obtain db1 where db1: "dbp1 = Some db1" "invar db1" "capacity db1 = capacity db"
    "count db1 = count db + 1"
    "\<forall>k'. db_get (Some db1) (Some k') = (if k' = k then Some v else db_get (Some db) (Some k'))"
    by (auto simp: after_load_test_def)
  have d: "distinct (map fst kvs)" and knew: "k \<notin> fst ` set kvs"
    using Cons.prems(2) kv by auto
  have abs1: "\<forall>k'\<in>fst ` set kvs. db_get (Some db1) (Some k') = None"
    using db1(5) Cons.prems(3) knew by auto
  have load1: "4 * (count db1 + length kvs) \<le> 3 * capacity db1"
    using Cons.prems(4) db1(3,4) by simp
  from Cons.IH [OF db1(2) d abs1 load1] rest db1(1)
  obtain db' where db': "dbp' = Some db'" "invar db'" "capacity db' = capacity db1"
    "count db' = count db1 + length kvs"
    "\<forall>k. k \<notin> fst ` set kvs \<longrightarrow> db_get (Some db') (Some k) = db_get (Some db1) (Some k)"
    by auto
  show ?case
    using db' db1 kv by auto
qed

lemma get_empty_table: "db_get (Some empty_table) (Some k) = None"
proof -
  have "bucket_index (fnv1a k) 64 < 64" by (rule bucket_index_less) simp
  then show ?thesis
    by (simp add: db_get_def empty_table_def INITIAL_CAPACITY_def)
qed

section \<open>Deletion\<close>

lemma chain_delete_None_iff: "chain_delete es k = None \<longleftrightarrow> k \<notin> key ` set es"
  by (induction es) auto

lemma chain_delete_Some:
  "chain_delete es k = Some es' \<Longrightarrow> distinct (map key es) \<Longrightarrow>
   es' = filter (\<lambda>e. key e \<noteq> k) es \<and> Suc (length es') = length es"
proof (induction es arbitrary: es')
  case Nil
  then show ?case by simp
next
  case (Cons e es)
  show ?case
  proof (cases "key e = k")
    case True
    with Cons.prems have "es' = es" "k \<notin> key ` set es" by auto
    moreover from this(2) have "filter (\<lambda>e. key e \<noteq> k) es = es"
      by (auto simp: filter_id_conv)
    ultimately show ?thesis using True by simp
  next
    case False
    with Cons.prems obtain es1 where es1: "chain_delete es k = Some es1" "es' = e # es1"
      by auto
    from Cons.prems(2) have "distinct (map key es)" by simp
    note ih = Cons.IH [OF es1(1) this]
    from ih have "es1 = filter (\<lambda>e. key e \<noteq> k) es" by (rule conjunct1)
    moreover from ih have "Suc (length es1) = length es" by (rule conjunct2)
    ultimately show ?thesis using es1(2) False by auto
  qed
qed

lemma chain_get_filter:
  "chain_get (filter (\<lambda>e. key e \<noteq> k) es) k' = (if k' = k then None else chain_get es k')"
  by (induction es) auto

lemma db_delete_absent:
  assumes "db_get (Some db) (Some k) = None"
  shows "db_delete (Some db) (Some k) = (False, Some db)"
proof -
  from assms have "chain_get (buckets db ! bucket_index (fnv1a k) (capacity db)) k = None"
    by (simp add: db_get_def)
  then have "chain_delete (buckets db ! bucket_index (fnv1a k) (capacity db)) k = None"
    by (simp add: chain_get_None_iff chain_delete_None_iff)
  then show ?thesis by (simp add: db_delete_def)
qed

lemma db_delete_present:
  assumes "invar db" "db_get (Some db) (Some k) \<noteq> None"
  shows "db_delete (Some db) (Some k) = (True, Some (without k db))
    \<and> Suc (length (concat (buckets (without k db)))) = length (concat (buckets db))"
proof -
  let ?i = "bucket_index (fnv1a k) (capacity db)"
  have i: "?i < capacity db" using assms(1) by (simp add: invar_capD bucket_index_less)
  then have il: "?i < length (buckets db)" using assms(1) by (simp add: invar_def)
  from assms(2) have "chain_get (buckets db ! ?i) k \<noteq> None"
    by (simp add: db_get_def)
  then have "chain_delete (buckets db ! ?i) k \<noteq> None"
    by (simp add: chain_get_None_iff chain_delete_None_iff)
  then obtain es' where es': "chain_delete (buckets db ! ?i) k = Some es'" by auto
  note cd = chain_delete_Some [OF es' invar_bucket_distinct [OF assms(1) i]]
  from cd have f: "es' = filter (\<lambda>e. key e \<noteq> k) (buckets db ! ?i)" by (rule conjunct1)
  from cd have l: "Suc (length es') = length (buckets db ! ?i)" by (rule conjunct2)
  have "db_delete (Some db) (Some k) = (True, Some (without k db))"
    using es' f by (simp add: db_delete_def without_def Let_def)
  moreover have "Suc (length (concat (buckets (without k db)))) = length (concat (buckets db))"
    using arg_cong [OF concat_split_nth [OF il], of length] l [unfolded f]
    by (simp add: without_def concat_update [OF il] del: length_concat)
  ultimately show ?thesis by simp
qed

lemma invar_without:
  assumes "invar db" "db_get (Some db) (Some k) \<noteq> None"
  shows "invar (without k db)"
proof -
  let ?i = "bucket_index (fnv1a k) (capacity db)"
  let ?bs = "(buckets db)[?i := filter (\<lambda>e. key e \<noteq> k) (buckets db ! ?i)]"
  have il: "?i < length (buckets db)" using assms(1) by (simp add: invar_def bucket_index_less)
  have ok: "bucket_ok (capacity db) j (?bs ! j)" if "j < capacity db" for j
  proof -
    from assms(1) that have "bucket_ok (capacity db) j (buckets db ! j)"
      by (simp add: invar_def list_all_iff)
    with that il show ?thesis
      by (cases "j = ?i") (auto simp: bucket_ok_def list_all_iff)
  qed
  have "distinct (map key (concat (buckets db)))" using assms(1) by (simp add: invar_def)
  then have dist: "distinct (map key (concat ?bs))"
    unfolding concat_update [OF il] using arg_cong [OF concat_split_nth [OF il], of "map key"]
    by (auto simp: distinct_map_filter simp del: set_concat)
  have "Suc (length (concat (buckets (without k db)))) = length (concat (buckets db))"
    using db_delete_present [OF assms] by (rule conjunct2)
  then have "Suc (length (concat ?bs)) = length (concat (buckets db))"
    by (simp add: without_def del: length_concat)
  moreover have "count db = length (concat (buckets db))"
    using assms(1) by (simp add: invar_def)
  ultimately have cnt: "count db - 1 = length (concat ?bs)"
    by linarith
  from assms(1) il ok dist cnt show ?thesis
    by (simp add: invar_def without_def list_all_iff del: length_concat)
qed

lemma get_without:
  assumes "invar db"
  shows "db_get (Some (without k db)) (Some k') = (if k' = k then None else db_get (Some db) (Some k'))"
proof -
  let ?i = "bucket_index (fnv1a k) (capacity db)"
  let ?j = "bucket_index (fnv1a k') (capacity db)"
  have il: "?i < length (buckets db)" using assms(1) by (simp add: invar_def bucket_index_less)
  show ?thesis
  proof (cases "?j = ?i")
    case True
    with il show ?thesis
      by (simp add: db_get_def without_def chain_get_filter)
  next
    case False
    then have "k' \<noteq> k" by auto
    with False il show ?thesis
      by (simp add: db_get_def without_def)
  qed
qed

lemma db_delete_invar:
  assumes "invar db" "db_delete (Some db) (Some k) = (r, dbp')"
  shows "\<exists>db'. dbp' = Some db' \<and> invar db'"
proof (cases "db_get (Some db) (Some k) = None")
  case True
  from db_delete_absent [OF True] assms show ?thesis by simp
next
  case False
  from db_delete_present [OF assms(1) False] invar_without [OF assms(1) False] assms(2)
  show ?thesis by simp
qed

lemma db_clear_invar:
  assumes "invar db"
  shows "\<exists>db'. db_clear (Some db) = Some db' \<and> invar db'"
  using assms by (simp add: db_clear_def invar_def list_all_iff bucket_ok_def)

section \<open>Enumeration\<close>

lemma keys_chain_Some:
  "keys_chain a es arr = (Some arr', a') \<Longrightarrow> arr' = arr @ map key es"
proof (induction es arbitrary: a arr)
  case Nil
  then show ?case by simp
next
  case (Cons e es)
  from Cons.prems have "keys_chain (\<lambda>n. a (Suc n)) es (arr @ [key e]) = (Some arr', a')"
    by (auto simp: dup_str_def split: if_splits)
  from Cons.IH [OF this] show ?case by simp
qed

lemma keys_loop_Some:
  "keys_loop a db is arr = (Some arr', a') \<Longrightarrow>
   length arr + length (concat (map ((!) (buckets db)) is)) = count db \<Longrightarrow>
   arr' = arr @ map key (concat (map ((!) (buckets db)) is))"
proof (induction "is" arbitrary: a arr)
  case Nil
  then show ?case by simp
next
  case (Cons i "is")
  show ?case
  proof (cases "length arr < count db")
    case True
    with Cons.prems(1) obtain arr1 a1 where
      c: "keys_chain a (buckets db ! i) arr = (Some arr1, a1)"
      and r: "keys_loop a1 db is arr1 = (Some arr', a')"
      by (auto split: prod.splits option.splits)
    from keys_chain_Some [OF c] have arr1: "arr1 = arr @ map key (buckets db ! i)" .
    with Cons.prems(2) have "length arr1 + length (concat (map ((!) (buckets db)) is)) = count db"
      by simp
    from Cons.IH [OF r this] arr1 show ?thesis by simp
  next
    case False
    with Cons.prems(2) have "length (concat (map ((!) (buckets db)) (i # is))) = 0"
      by linarith
    then have "concat (map ((!) (buckets db)) (i # is)) = []"
      by (simp only: length_0_conv)
    with False Cons.prems(1) show ?thesis by simp
  qed
qed

lemma keys_chain_all_ok:
  "\<forall>i. a i \<Longrightarrow> \<exists>a'. keys_chain a es arr = (Some (arr @ map key es), a') \<and> (\<forall>i. a' i)"
proof (induction es arbitrary: a arr)
  case Nil
  then show ?case by simp
next
  case (Cons e es)
  from Cons.prems have "\<forall>i. a (Suc i)" by simp
  from Cons.IH [OF this, of "arr @ [key e]"] Cons.prems show ?case
    by (simp add: dup_str_def)
qed

lemma keys_loop_all_ok:
  "\<forall>i. a i \<Longrightarrow> \<exists>arr' a'. keys_loop a db is arr = (Some arr', a')"
proof (induction "is" arbitrary: a arr)
  case Nil
  then show ?case by simp
next
  case (Cons i "is")
  from keys_chain_all_ok [OF Cons.prems, of "buckets db ! i" arr] obtain a1
    where c: "keys_chain a (buckets db ! i) arr = (Some (arr @ map key (buckets db ! i)), a1)"
      and ok1: "\<forall>i. a1 i"
    by blast
  from Cons.IH [OF ok1, of "arr @ map key (buckets db ! i)"] c show ?case by auto
qed

lemma db_keys_all_ok:
  assumes "\<forall>i. a i" "count db \<noteq> 0"
  shows "\<exists>ks a'. db_keys a (Some db) = (Some ks, length ks, a')"
proof -
  from assms(1) have "\<forall>i. a (Suc i)" by simp
  from keys_loop_all_ok [OF this, of db "[0..<capacity db]" "[]"] assms show ?thesis
    by (auto simp: db_keys_def)
qed

lemma db_keys_Some:
  assumes "invar db" "db_keys a (Some db) = (Some ks, n, a')"
  shows "ks = map key (concat (buckets db)) \<and> n = length ks"
proof -
  from assms(2) obtain a1 a2 where
    l: "keys_loop a1 db [0..<capacity db] [] = (Some ks, a2)" and n: "n = length ks"
    by (auto simp: db_keys_def split: if_splits prod.splits option.splits)
  have m: "map ((!) (buckets db)) [0..<capacity db] = buckets db"
    using assms(1) map_nth [of "buckets db"] by (simp add: invar_def)
  have "length [] + length (concat (map ((!) (buckets db)) [0..<capacity db])) = count db"
    unfolding m using assms(1) by (simp add: invar_def del: length_concat)
  from keys_loop_Some [OF l this] n show ?thesis unfolding m by simp
qed

section \<open>Statistics\<close>

lemma fold_index_buckets:
  "fold (\<lambda>i s. f (bs ! i) s) [0..<length bs] s0 = fold f bs s0"
proof -
  have "fold (\<lambda>i s. f (bs ! i) s) [0..<length bs] = fold f (map ((!) bs) [0..<length bs])"
    by (simp add: fold_map comp_def)
  then show ?thesis by (simp add: map_nth)
qed

lemma total_entries_fold: "total_entries (fold stats_bucket bs s) = total_entries s"
  by (induction bs arbitrary: s) (auto simp: stats_bucket_def Let_def)

lemma used_buckets_fold:
  "used_buckets (fold stats_bucket bs s) = used_buckets s + length (filter (\<lambda>es. es \<noteq> []) bs)"
  by (induction bs arbitrary: s) (auto simp: stats_bucket_def Let_def)

lemma total_collisions_fold:
  "total_collisions (fold stats_bucket bs s) = total_collisions s + (\<Sum>es\<leftarrow>bs. length es - 1)"
  by (induction bs arbitrary: s) (auto simp: stats_bucket_def Let_def)

lemma max_chain_length_bucket:
  "max_chain_length (stats_bucket es s) = max (length es) (max_chain_length s)"
  by (auto simp: stats_bucket_def Let_def)

lemma max_chain_length_fold:
  "max_chain_length (fold stats_bucket bs s) = fold max (map length bs) (max_chain_length s)"
  by (induction bs arbitrary: s) (simp_all add: max_chain_length_bucket)

lemma db_stats_Some:
  "length (buckets db) = capacity db \<Longrightarrow>
   db_stats (Some db) = fold stats_bucket (buckets db)
     \<lparr>total_entries = count db, total_collisions = 0, max_chain_length = 0, used_buckets = 0\<rparr>"
  using fold_index_buckets [of stats_bucket "buckets db"]
  by (simp add: db_stats_def)

lemma fold_max_Max:
  "bs \<noteq> [] \<Longrightarrow> fold max (map length bs) (0::nat) = Max (length ` set bs)"
proof -
  assume ne: "bs \<noteq> []"
  have "fold max (map length bs) (0::nat) = Max (set (0 # map length bs))"
    by (simp only: Max.set_eq_fold)
  also have "\<dots> = max 0 (Max (length ` set bs))"
    using ne by (simp del: max_0L)
  finally show ?thesis by simp
qed

section \<open>The tables of the forty-nine keys\<close>

lemma malloc_all_ok: "(\<lambda>i. all_ok (Suc i)) = all_ok"
  by (simp add: all_ok_def)

lemma db_create_all_ok: "db_create all_ok = (Some empty_table, all_ok)"
  by (simp add: db_create_ok all_ok_def)

lemma filled_eq: "filled n = set_many all_ok (Some empty_table) (pairs n)"
  by (simp add: filled_def db_create_all_ok)

lemma filled_table: "fst (snd (filled n)) = Some (table_of n) \<and> invar (table_of n)"
proof -
  obtain r dbp a where f: "set_many all_ok (Some empty_table) (pairs n) = (r, dbp, a)"
    by (cases "set_many all_ok (Some empty_table) (pairs n)")
  from set_many_invar [OF invar_empty_table f] f show ?thesis
    by (auto simp: table_of_def filled_eq)
qed

lemma set_many_reachable:
  "set_reachable db \<Longrightarrow> set_many a (Some db) kvs = (True, Some db', a') \<Longrightarrow> set_reachable db'"
proof (induction kvs arbitrary: db a)
  case Nil
  then show ?case by simp
next
  case (Cons kv kvs)
  obtain k v where kv: "kv = (k, v)" by (cases kv)
  obtain ok dbp1 a1 where s: "db_set a (Some db) (Some k) (Some v) = (ok, dbp1, a1)"
    by (cases "db_set a (Some db) (Some k) (Some v)")
  from Cons.prems(2) kv s have ok: "ok" and rest: "set_many a1 dbp1 kvs = (True, Some db', a')"
    by (auto split: if_splits)
  from db_set_invar [OF set_reachable_facts [OF Cons.prems(1), THEN conjunct1] s]
  obtain db1 where db1: "dbp1 = Some db1" by blast
  from Cons.prems(1) s ok db1 have "set_reachable db1"
    by (auto intro: set_reachable.after_set)
  from Cons.IH [OF this] rest db1 show ?case by simp
qed

lemma filled_reachable:
  assumes "fst (filled n)"
  shows "set_reachable (table_of n)"
proof -
  have "set_reachable empty_table"
    using db_create_all_ok by (rule set_reachable.created)
  moreover have "set_many all_ok (Some empty_table) (pairs n)
      = (True, Some (table_of n), snd (snd (filled n)))"
    using assms filled_table [of n] by (simp add: filled_eq prod_eq_iff)
  ultimately show ?thesis by (rule set_many_reachable)
qed

lemma filled_48: "fst (filled 48)"
  by code_simp

lemma filled_3: "fst (filled 3)"
  by code_simp


section \<open>The properties of the store\<close>

text \<open>
  In every statement below a table is a well-formed one (\<^const>\<open>invar\<close>): \<^verbatim>\<open>db_create\<close>
  returns such a table (\<open>invar_empty_table\<close>), and \<^verbatim>\<open>db_set\<close>, \<^verbatim>\<open>db_delete\<close>,
  \<^verbatim>\<open>db_clear\<close> and \<^verbatim>\<open>rehash\<close> keep the invariant, whether they succeed or fail
  (\<open>db_set_invar\<close>, \<open>db_delete_invar\<close>, \<open>db_clear_invar\<close>, \<open>invar_rehashed\<close>).
\<close>

subsection \<open>C1: set, then get\<close>

text \<open>
  C1. For every table, key \<open>k\<close> and value \<open>v\<close>: if \<^verbatim>\<open>db_set(k, v)\<close> succeeds, then in the
  table it leaves \<^verbatim>\<open>db_get(k)\<close> returns \<open>v\<close> and \<^verbatim>\<open>db_exists(k)\<close> is true.
\<close>

theorem set_then_get:
  assumes "invar db" "db_set a (Some db) (Some k) (Some v) = (True, dbp', a')"
  shows "db_get dbp' (Some k) = Some v \<and> db_exists dbp' (Some k)"
  using db_set_success [OF assms] by (auto simp: db_exists_def)

text \<open>C1 at the key \<open>alpha\<close>, set in the table of the keys \<open>k1\<close>, \<open>k2\<close>, \<open>k3\<close>.\<close>

theorem set_then_get_witness:
  "invar (table_of 3)
   \<and> fst (db_set all_ok (Some (table_of 3)) (Some ''alpha'') (Some ''1''))
   \<and> db_get (fst (snd (db_set all_ok (Some (table_of 3)) (Some ''alpha'') (Some ''1''))))
        (Some ''alpha'') = Some ''1''
   \<and> db_exists (fst (snd (db_set all_ok (Some (table_of 3)) (Some ''alpha'') (Some ''1''))))
        (Some ''alpha'')"
proof -
  let ?r = "db_set all_ok (Some (table_of 3)) (Some ''alpha'') (Some ''1'')"
  have inv: "invar (table_of 3)" using filled_table [of 3] by simp
  have ok: "fst ?r" by code_simp
  then have "?r = (True, fst (snd ?r), snd (snd ?r))" by (simp add: prod_eq_iff)
  from set_then_get [OF inv this] ok inv show ?thesis by simp
qed

subsection \<open>C2: updating a key that is present\<close>

text \<open>
  C2, as the code has it. For every table and every key \<open>k\<close> present in it, a successful
  \<^verbatim>\<open>db_set(k, v2)\<close> replaces the value of \<open>k\<close> by \<open>v2\<close> and leaves \<open>count\<close> and the
  values of all other keys unchanged. The load test runs before the chain is searched, for
  an update as for an insertion. When \<open>(count + 1) / capacity\<close> does not exceed \<open>0.75\<close>,
  the capacity is unchanged and so are the key storage and the position of every entry in
  its chain: the bucket array differs only in the value of \<open>k\<close>. When it exceeds \<open>0.75\<close>,
  the table is first rehashed to twice the capacity, and the value is replaced in the
  rehashed chains.
\<close>

theorem update_existing:
  assumes "invar db" "db_get (Some db) (Some k) \<noteq> None"
    "db_set a (Some db) (Some k) (Some v2) = (True, dbp', a')"
  shows "\<exists>db'. dbp' = Some db' \<and> count db' = count db
    \<and> db_get (Some db') (Some k) = Some v2
    \<and> (\<forall>k'. k' \<noteq> k \<longrightarrow> db_get (Some db') (Some k') = db_get (Some db) (Some k'))
    \<and> (if load_exceeded db
        then capacity db' = capacity db * 2
          \<and> buckets db' = map (map (upd k v2)) (buckets (rehashed db (capacity db * 2)))
        else capacity db' = capacity db
          \<and> buckets db' = map (map (upd k v2)) (buckets db))"
  using db_set_success [OF assms(1,3)] assms(2)
  by (auto simp: after_load_test_def)

text \<open>The update of \<open>k2\<close> in the table of three keys: no rehash, one value replaced.\<close>

theorem update_existing_witness:
  "invar (table_of 3) \<and> db_get (Some (table_of 3)) (Some ''k2'') = Some ''v''
   \<and> \<not> load_exceeded (table_of 3)
   \<and> (\<exists>db'. db_set all_ok (Some (table_of 3)) (Some ''k2'') (Some ''w'') = (True, Some db', all_ok)
        \<and> count db' = count (table_of 3) \<and> capacity db' = capacity (table_of 3)
        \<and> db_get (Some db') (Some ''k2'') = Some ''w''
        \<and> buckets db' = map (map (upd ''k2'' ''w'')) (buckets (table_of 3)))"
proof -
  let ?r = "db_set all_ok (Some (table_of 3)) (Some ''k2'') (Some ''w'')"
  have inv: "invar (table_of 3)" using filled_table [of 3] by simp
  have g: "db_get (Some (table_of 3)) (Some ''k2'') = Some ''v''" by code_simp
  have l: "\<not> load_exceeded (table_of 3)" by code_simp
  have ok: "fst ?r" by code_simp
  have al: "snd (snd ?r) = all_ok"
    using inv g set_in_bucket_update [of "table_of 3" "''k2''" all_ok "''w''"] l
      get_None_iff [OF inv, of "''k2''"]
    by (simp add: db_set_Some malloc_all_ok)
  from ok al have eq: "?r = (True, fst (snd ?r), all_ok)" by (simp add: prod_eq_iff)
  from update_existing [OF inv _ eq] g l inv eq show ?thesis by auto
qed

text \<open>
  C2 as the specification states it (an update never changes the capacity) fails on the
  table of forty-eight keys: its capacity is 64, the key \<open>k1\<close> is present, and the
  successful update of \<open>k1\<close> leaves a table of capacity 128, since \<open>49 / 64 > 0.75\<close>.
\<close>

theorem update_resizes_counterexample:
  "db_count (fst (snd (filled 48))) = 48
   \<and> map_option capacity (fst (snd (filled 48))) = Some 64
   \<and> db_get (fst (snd (filled 48))) (Some ''k1'') = Some ''v''
   \<and> fst (db_set all_ok (fst (snd (filled 48))) (Some ''k1'') (Some ''w''))
   \<and> map_option capacity (fst (snd (db_set all_ok (fst (snd (filled 48))) (Some ''k1'') (Some ''w''))))
       = Some 128"
  by code_simp

subsection \<open>C3: load factor and capacity\<close>

text \<open>
  C3. For every table reachable from \<^verbatim>\<open>db_create\<close> by calls of \<^verbatim>\<open>db_set\<close>, successful
  or not: \<open>count / capacity \<le> 0.75\<close>, the capacity is a power of two, and it is at least
  64. A further \<^verbatim>\<open>db_set\<close> leaves the capacity as it is or doubles it. (The first table
  has capacity 64: see \<open>db_create_Some\<close>.)
\<close>

theorem load_factor_invariant:
  assumes "set_reachable db"
  shows "real (count db) / real (capacity db) \<le> 0.75
    \<and> (\<exists>n. capacity db = 2 ^ n) \<and> 64 \<le> capacity db
    \<and> (\<forall>a k v r db' a'. db_set a (Some db) (Some k) (Some v) = (r, Some db', a') \<longrightarrow>
          capacity db' = capacity db \<or> capacity db' = 2 * capacity db)"
proof -
  from set_reachable_facts [OF assms]
  have inv: "invar db" and load: "4 * count db \<le> 3 * capacity db"
    and pow: "\<exists>n. capacity db = 2 ^ n" and cap: "64 \<le> capacity db" by simp_all
  from load have "4 * real (count db) \<le> 3 * real (capacity db)"
    by (metis of_nat_le_iff of_nat_mult of_nat_numeral)
  moreover from cap have "0 < real (capacity db)" by simp
  ultimately have ratio: "real (count db) / real (capacity db) \<le> 0.75"
    by (simp add: field_simps)
  have "capacity db' = capacity db \<or> capacity db' = 2 * capacity db"
    if "db_set a (Some db) (Some k) (Some v) = (r, Some db', a')" for a k v r db' a'
    using db_set_step [OF inv load that] by simp
  with ratio pow cap show ?thesis by blast
qed

text \<open>C3 at the table of forty-eight keys, and at the insertion of the forty-ninth.\<close>

theorem load_factor_invariant_witness:
  "set_reachable (table_of 48) \<and> count (table_of 48) = 48 \<and> capacity (table_of 48) = 64
   \<and> real (count (table_of 48)) / real (capacity (table_of 48)) \<le> 0.75
   \<and> (\<exists>n. capacity (table_of 48) = 2 ^ n) \<and> 64 \<le> capacity (table_of 48)
   \<and> fst (db_set all_ok (Some (table_of 48)) (Some ''k49'') (Some ''v''))
   \<and> (\<exists>db'. fst (snd (db_set all_ok (Some (table_of 48)) (Some ''k49'') (Some ''v''))) = Some db'
        \<and> (capacity db' = 64 \<or> capacity db' = 128))"
proof -
  let ?r = "db_set all_ok (Some (table_of 48)) (Some ''k49'') (Some ''v'')"
  have r: "set_reachable (table_of 48)" using filled_48 by (rule filled_reachable)
  have c: "count (table_of 48) = 48" "capacity (table_of 48) = 64" by code_simp+
  have ok: "fst ?r" by code_simp
  have "?r = (fst ?r, fst (snd ?r), snd (snd ?r))" by simp
  from db_set_invar [OF _ this] filled_table [of 48]
  obtain db' where db': "fst (snd ?r) = Some db'" by blast
  with ok have "?r = (True, Some db', snd (snd ?r))" by (simp add: prod_eq_iff)
  with load_factor_invariant [OF r] c
  have "real (count (table_of 48)) / real (capacity (table_of 48)) \<le> 0.75
    \<and> (\<exists>n. capacity (table_of 48) = 2 ^ n) \<and> 64 \<le> capacity (table_of 48)
    \<and> (capacity db' = 64 \<or> capacity db' = 128)"
    by (metis mult_2 numeral_Bit0)
  with r c ok db' show ?thesis by simp
qed

subsection \<open>C4: the resize trigger\<close>

text \<open>
  C4. From a freshly created table, forty-eight successful insertions of distinct keys
  leave the capacity at 64 and the count at 48. The successful insertion of one more new
  key leaves capacity 128: the new entry is placed at the head of its chain in the table as
  rehashed to 128 buckets, so the rehash runs before the entry is placed.
\<close>

theorem resize_trigger:
  assumes "db_create a0 = (Some db0, a1)"
    and "distinct (map fst kvs)" and "length kvs = 48"
    and "set_many a1 (Some db0) kvs = (True, dbp, a2)"
  shows "\<exists>db. dbp = Some db \<and> capacity db = 64 \<and> count db = 48
    \<and> (\<forall>k v a3 dbp'. k \<notin> fst ` set kvs \<and> db_set a2 dbp (Some k) (Some v) = (True, dbp', a3) \<longrightarrow>
          (\<exists>db'. dbp' = Some db' \<and> capacity db' = 128 \<and> count db' = 49
             \<and> buckets db' = (buckets (rehashed db 128))
                  [bucket_index (fnv1a k) 128 :=
                     \<lparr>key = k, val = v\<rparr> # buckets (rehashed db 128) ! bucket_index (fnv1a k) 128]))"
proof -
  from assms(1) have db0: "db0 = empty_table" by (rule db_create_Some)
  have c0: "count empty_table = 0" "capacity empty_table = 64"
    by (simp_all add: empty_table_def INITIAL_CAPACITY_def)
  have "\<forall>k\<in>fst ` set kvs. db_get (Some empty_table) (Some k) = None"
    by (simp add: get_empty_table)
  moreover have "4 * (count empty_table + length kvs) \<le> 3 * capacity empty_table"
    using assms(3) c0 by simp
  ultimately obtain db where db: "dbp = Some db" "invar db" "capacity db = 64" "count db = 48"
    "\<forall>k. k \<notin> fst ` set kvs \<longrightarrow> db_get (Some db) (Some k) = None"
    using set_many_fresh [OF invar_empty_table assms(2), of a1 dbp a2] assms(3,4) db0 c0
    by (auto simp: get_empty_table)
  have load: "load_exceeded db" using db(3,4) by (simp add: load_exceeded_def)
  then have base: "after_load_test db = rehashed db 128"
    using db(3) by (simp add: after_load_test_def)
  have "\<exists>db'. dbp' = Some db' \<and> capacity db' = 128 \<and> count db' = 49
             \<and> buckets db' = (buckets (rehashed db 128))
                  [bucket_index (fnv1a k) 128 :=
                     \<lparr>key = k, val = v\<rparr> # buckets (rehashed db 128) ! bucket_index (fnv1a k) 128]"
    if "k \<notin> fst ` set kvs" "db_set a2 dbp (Some k) (Some v) = (True, dbp', a3)" for k v a3 dbp'
  proof -
    from that(1) db(5) have "db_get (Some db) (Some k) = None" by simp
    with db_set_success [OF db(2), of a2 k v dbp' a3] that(2) db(1,4) base show ?thesis
      by auto
  qed
  with db(1,3,4) show ?thesis by blast
qed

text \<open>C4 at the keys \<open>k1\<close> to \<open>k48\<close>, followed by \<open>k49\<close>.\<close>

theorem resize_trigger_witness:
  "db_create all_ok = (Some empty_table, all_ok)
   \<and> distinct (map fst (pairs 48)) \<and> length (pairs 48) = 48 \<and> fst (filled 48)
   \<and> capacity (table_of 48) = 64 \<and> count (table_of 48) = 48
   \<and> ''k49'' \<notin> fst ` set (pairs 48)
   \<and> fst (db_set (snd (snd (filled 48))) (Some (table_of 48)) (Some ''k49'') (Some ''v''))
   \<and> map_option capacity
        (fst (snd (db_set (snd (snd (filled 48))) (Some (table_of 48)) (Some ''k49'') (Some ''v''))))
       = Some 128"
proof -
  let ?a2 = "snd (snd (filled 48))"
  let ?r = "db_set ?a2 (Some (table_of 48)) (Some ''k49'') (Some ''v'')"
  have d: "distinct (map fst (pairs 48))" by code_simp
  have l: "length (pairs 48) = 48" by code_simp
  have nk: "''k49'' \<notin> fst ` set (pairs 48)" by code_simp
  have sm: "set_many all_ok (Some empty_table) (pairs 48) = (True, Some (table_of 48), ?a2)"
    using filled_48 filled_table [of 48] by (simp add: filled_eq prod_eq_iff)
  have ok: "fst ?r" by code_simp
  then have eq: "?r = (True, fst (snd ?r), snd (snd ?r))" by (simp add: prod_eq_iff)
  from resize_trigger [OF db_create_all_ok d l sm] nk eq
  have "capacity (table_of 48) = 64 \<and> count (table_of 48) = 48
    \<and> (\<exists>db'. fst (snd ?r) = Some db' \<and> capacity db' = 128)"
    by blast
  with db_create_all_ok d l nk ok filled_48 show ?thesis by auto
qed

subsection \<open>C5: allocation failure in rehash\<close>

text \<open>
  C5. If the allocation of the new bucket array fails, \<^verbatim>\<open>rehash\<close> returns false and the
  table is exactly as before; a \<^verbatim>\<open>db_set\<close> whose load test fired then returns false
  with the table unchanged.
\<close>

theorem rehash_alloc_failure:
  assumes "\<not> fst (calloc a)"
  shows "rehash a db new_cap = (False, db, snd (calloc a))
    \<and> (load_exceeded db \<longrightarrow>
         db_set a (Some db) (Some k) (Some v) = (False, Some db, snd (calloc a)))"
  using assms by (cases "calloc a") (simp add: rehash_def db_set_Some)

text \<open>C5 at the table of forty-eight keys, whose load test fires, with no memory left.\<close>

theorem rehash_alloc_failure_witness:
  "\<not> fst (calloc none_ok) \<and> load_exceeded (table_of 48)
   \<and> rehash none_ok (table_of 48) 128 = (False, table_of 48, none_ok)
   \<and> db_set none_ok (Some (table_of 48)) (Some ''k49'') (Some ''v'')
       = (False, Some (table_of 48), none_ok)"
proof -
  have nc: "\<not> fst (calloc none_ok)" by (simp add: calloc_def none_ok_def)
  have sn: "snd (calloc none_ok) = none_ok" by (simp add: calloc_def none_ok_def)
  have le: "load_exceeded (table_of 48)" by code_simp
  from rehash_alloc_failure [OF nc, of "table_of 48" 128 "''k49''" "''v''"] le sn nc
  show ?thesis by simp
qed

subsection \<open>C6: deletion\<close>

text \<open>
  C6. For every table and key \<open>k\<close>: if \<open>k\<close> is present, \<^verbatim>\<open>db_delete(k)\<close> returns true,
  \<^verbatim>\<open>db_get(k)\<close> then finds nothing, and \<open>count\<close> decreases by exactly one; if \<open>k\<close> is
  absent, \<^verbatim>\<open>db_delete(k)\<close> returns false and the table is unchanged. In both cases the
  capacity and the length of the bucket array stay as they are.
\<close>

theorem delete_present_absent:
  assumes "invar db"
  shows "(db_get (Some db) (Some k) \<noteq> None \<longrightarrow>
            (\<exists>db'. db_delete (Some db) (Some k) = (True, Some db')
               \<and> db_get (Some db') (Some k) = None
               \<and> 0 < count db \<and> count db' = count db - 1
               \<and> capacity db' = capacity db \<and> length (buckets db') = length (buckets db)))
       \<and> (db_get (Some db) (Some k) = None \<longrightarrow> db_delete (Some db) (Some k) = (False, Some db))"
proof -
  have "\<exists>db'. db_delete (Some db) (Some k) = (True, Some db')
               \<and> db_get (Some db') (Some k) = None
               \<and> 0 < count db \<and> count db' = count db - 1
               \<and> capacity db' = capacity db \<and> length (buckets db') = length (buckets db)"
    if present: "db_get (Some db) (Some k) \<noteq> None"
  proof -
    from db_delete_present [OF assms present]
    have d: "db_delete (Some db) (Some k) = (True, Some (without k db))"
      and l: "Suc (length (concat (buckets (without k db)))) = length (concat (buckets db))"
      by simp_all
    from assms have "count db = length (concat (buckets db))" by (simp add: invar_def)
    with l have "0 < count db" by linarith
    with d get_without [OF assms, of k k] show ?thesis
      by (simp add: without_def)
  qed
  with db_delete_absent [of db k] show ?thesis by blast
qed

text \<open>C6 in the table of three keys: \<open>k2\<close> is present, \<open>zz\<close> is absent.\<close>

theorem delete_present_absent_witness:
  "invar (table_of 3) \<and> db_get (Some (table_of 3)) (Some ''k2'') \<noteq> None
   \<and> fst (db_delete (Some (table_of 3)) (Some ''k2''))
   \<and> db_get (snd (db_delete (Some (table_of 3)) (Some ''k2''))) (Some ''k2'') = None
   \<and> db_count (snd (db_delete (Some (table_of 3)) (Some ''k2''))) = 2
   \<and> db_get (Some (table_of 3)) (Some ''zz'') = None
   \<and> db_delete (Some (table_of 3)) (Some ''zz'') = (False, Some (table_of 3))"
proof -
  have inv: "invar (table_of 3)" using filled_table [of 3] by simp
  have p: "db_get (Some (table_of 3)) (Some ''k2'') \<noteq> None" by code_simp
  have a: "db_get (Some (table_of 3)) (Some ''zz'') = None" by code_simp
  have c: "count (table_of 3) = 3" by code_simp
  from delete_present_absent [OF inv, of "''k2''"] p c
  have "fst (db_delete (Some (table_of 3)) (Some ''k2''))
   \<and> db_get (snd (db_delete (Some (table_of 3)) (Some ''k2''))) (Some ''k2'') = None
   \<and> db_count (snd (db_delete (Some (table_of 3)) (Some ''k2''))) = 2"
    by (auto simp: db_count_def)
  moreover from delete_present_absent [OF inv, of "''zz''"] a
  have "db_delete (Some (table_of 3)) (Some ''zz'') = (False, Some (table_of 3))" by simp
  ultimately show ?thesis using inv p a by simp
qed

subsection \<open>C7: enumeration of the keys\<close>

text \<open>
  C7, as the code has it. For every table, a \<^verbatim>\<open>db_keys\<close> call that returns an array
  returns exactly \<open>count\<close> keys, each stored key exactly once, in ascending order of the
  bucket index and, within a bucket, from the head of the chain to its tail. The order in
  a chain is not always the most recently inserted key first: \<^verbatim>\<open>rehash\<close> relinks the
  entries at the heads of their new chains, which reverses the order of the entries that
  stay together.
\<close>

theorem keys_enumeration:
  assumes "invar db" "db_keys a (Some db) = (Some ks, n, a')"
  shows "ks = concat (map (map key) (buckets db))
    \<and> n = count db \<and> length ks = count db \<and> distinct ks
    \<and> set ks = {k. db_exists (Some db) (Some k)}"
proof -
  from db_keys_Some [OF assms] have ks: "ks = map key (concat (buckets db))" and n: "n = length ks"
    by simp_all
  have s: "set ks = {k. db_exists (Some db) (Some k)}"
    using get_None_iff [OF assms(1)] unfolding ks db_exists_def by (auto simp del: set_concat)
  have c: "ks = concat (map (map key) (buckets db))"
    unfolding ks by (rule map_concat)
  have l: "length ks = count db"
    unfolding ks using assms(1) by (simp add: invar_def del: length_concat)
  have d: "distinct ks"
    unfolding ks using assms(1) by (simp add: invar_def)
  from s c l d n show ?thesis by simp
qed

text \<open>C7 at the table of three keys.\<close>

theorem keys_enumeration_witness:
  "invar (table_of 3)
   \<and> fst (db_keys all_ok (Some (table_of 3))) = Some [''k1'', ''k3'', ''k2'']
   \<and> fst (snd (db_keys all_ok (Some (table_of 3)))) = count (table_of 3)
   \<and> [''k1'', ''k3'', ''k2''] = concat (map (map key) (buckets (table_of 3)))
   \<and> set [''k1'', ''k3'', ''k2''] = {k. db_exists (Some (table_of 3)) (Some k)}"
proof -
  let ?r = "db_keys all_ok (Some (table_of 3))"
  have inv: "invar (table_of 3)" using filled_table [of 3] by simp
  have ks: "fst ?r = Some [''k1'', ''k3'', ''k2'']" by code_simp
  then have eq: "?r = (Some [''k1'', ''k3'', ''k2''], fst (snd ?r), snd (snd ?r))"
    by (simp add: prod_eq_iff)
  note en = keys_enumeration [OF inv eq]
  from en have c: "[''k1'', ''k3'', ''k2''] = concat (map (map key) (buckets (table_of 3)))"
    by (rule conjunct1)
  from en have n: "fst (snd ?r) = count (table_of 3)" by blast
  from en have s: "set [''k1'', ''k3'', ''k2''] = {k. db_exists (Some (table_of 3)) (Some k)}"
    by blast
  from inv ks c n s show ?thesis by blast
qed

text \<open>
  C7 as the specification states it (within a bucket, the most recently inserted key
  first) fails on the table of forty-nine keys. The key \<open>k37\<close> was inserted before
  \<open>k46\<close>; after the rehash to 128 buckets both are in bucket 4, \<open>k37\<close> at the head, and
  \<^verbatim>\<open>db_keys\<close> lists \<open>k37\<close> before \<open>k46\<close>.
\<close>

theorem keys_order_counterexample:
  "fst (filled 49) \<and> map_option capacity (fst (snd (filled 49))) = Some 128
   \<and> keys49 ! 36 = ''k37'' \<and> keys49 ! 45 = ''k46''
   \<and> map_option (\<lambda>db. map key (buckets db ! 4)) (fst (snd (filled 49))) = Some [''k37'', ''k46'']
   \<and> fst (db_keys all_ok (fst (snd (filled 49)))) = Some
       [''k17'', ''k10'', ''k37'', ''k46'', ''k39'', ''k48'', ''k5'', ''k24'',
        ''k18'', ''k15'', ''k34'', ''k45'', ''k31'', ''k40'', ''k7'', ''k2'',
        ''k9'', ''k27'', ''k22'', ''k28'', ''k16'', ''k13'', ''k36'', ''k47'',
        ''k33'', ''k42'', ''k49'', ''k38'', ''k1'', ''k25'', ''k20'', ''k14'',
        ''k11'', ''k30'', ''k41'', ''k4'', ''k3'', ''k23'', ''k29'', ''k19'',
        ''k12'', ''k35'', ''k44'', ''k32'', ''k43'', ''k6'', ''k8'', ''k26'',
        ''k21'']"
  by code_simp

subsection \<open>C8: the keys of an empty table\<close>

text \<open>
  C8, as the code has it. For every table with \<open>count = 0\<close>, \<^verbatim>\<open>db_keys\<close> returns
  \<^verbatim>\<open>NULL\<close> and sets the count it reports to 0, without any allocation; this is not an
  error. When the allocation of the array fails it returns the same: \<^verbatim>\<open>NULL\<close> and the
  count 0. Whenever it returns \<^verbatim>\<open>NULL\<close> the reported count is 0, so the result alone
  does not tell the empty table from the failure.
\<close>

theorem keys_empty_or_failed:
  "(count db = 0 \<longrightarrow> db_keys a (Some db) = (None, 0, a))
   \<and> (count db \<noteq> 0 \<and> \<not> fst (malloc a) \<longrightarrow> db_keys a (Some db) = (None, 0, snd (malloc a)))
   \<and> (fst (db_keys a (Some db)) = None \<longrightarrow> fst (snd (db_keys a (Some db))) = 0)"
  by (auto simp: db_keys_def split: prod.splits option.splits)

text \<open>C8 at the empty table, and at the table of three keys with no memory left.\<close>

theorem keys_empty_or_failed_witness:
  "count empty_table = 0 \<and> db_keys all_ok (Some empty_table) = (None, 0, all_ok)
   \<and> count (table_of 3) \<noteq> 0 \<and> \<not> fst (malloc none_ok)
   \<and> db_keys none_ok (Some (table_of 3)) = (None, 0, none_ok)"
proof -
  have c0: "count empty_table = 0" by (simp add: empty_table_def)
  have c3: "count (table_of 3) \<noteq> 0" by code_simp
  have nm: "\<not> fst (malloc none_ok)" "snd (malloc none_ok) = none_ok"
    by (simp_all add: none_ok_def)
  from keys_empty_or_failed [of empty_table all_ok] c0
  have "db_keys all_ok (Some empty_table) = (None, 0, all_ok)" by blast
  moreover from keys_empty_or_failed [of "table_of 3" none_ok] c3 nm
  have "db_keys none_ok (Some (table_of 3)) = (None, 0, none_ok)" by metis
  ultimately show ?thesis using c0 c3 nm by simp
qed

text \<open>
  C8 as the specification states it (the empty result is distinguishable from the failure
  result) fails: the pointer and the count that \<^verbatim>\<open>db_keys\<close> returns for the empty table
  are those it returns for the table of three keys when the allocation fails.
\<close>

theorem keys_empty_like_failure_counterexample:
  "db_count (Some empty_table) = 0 \<and> db_count (Some (table_of 3)) = 3
   \<and> (fst (db_keys all_ok (Some empty_table)), fst (snd (db_keys all_ok (Some empty_table))))
     = (fst (db_keys none_ok (Some (table_of 3))), fst (snd (db_keys none_ok (Some (table_of 3)))))"
  by code_simp

subsection \<open>C9: statistics\<close>

text \<open>
  C9. For every table, \<^verbatim>\<open>db_stats\<close> returns: \<open>total_entries\<close> equal to
  \<^verbatim>\<open>db_count\<close>; \<open>used_buckets\<close> equal to the number of non-empty buckets, at most
  \<open>capacity\<close>; \<open>total_collisions\<close> equal to the sum over the buckets of
  \<open>max (chain_length - 1, 0)\<close>; \<open>max_chain_length\<close> equal to the greatest chain length,
  which is at least 1 when \<open>count > 0\<close> and 0 when \<open>count = 0\<close>. \<^verbatim>\<open>db_stats\<close> only reads
  the table: the source has no assignment through \<^verbatim>\<open>db\<close>, and accordingly
  \<^const>\<open>db_stats\<close> has no table among its results.
\<close>

theorem stats_consistency:
  assumes "invar db"
  shows "total_entries (db_stats (Some db)) = db_count (Some db)
    \<and> used_buckets (db_stats (Some db)) = length (filter (\<lambda>es. es \<noteq> []) (buckets db))
    \<and> used_buckets (db_stats (Some db)) \<le> capacity db
    \<and> total_collisions (db_stats (Some db))
        = (\<Sum>es\<leftarrow>buckets db. nat (max (int (length es) - 1) 0))
    \<and> max_chain_length (db_stats (Some db)) = Max (length ` set (buckets db))
    \<and> (0 < count db \<longrightarrow> 1 \<le> max_chain_length (db_stats (Some db)))
    \<and> (count db = 0 \<longrightarrow> max_chain_length (db_stats (Some db)) = 0)"
proof -
  let ?s = "db_stats (Some db)"
  have len: "length (buckets db) = capacity db" and cap: "0 < capacity db"
    and cnt: "count db = length (concat (buckets db))"
    using assms by (simp_all add: invar_def)
  note st = db_stats_Some [OF len]
  have te: "total_entries ?s = db_count (Some db)"
    by (simp add: st total_entries_fold db_count_def)
  have ub: "used_buckets ?s = length (filter (\<lambda>es. es \<noteq> []) (buckets db))"
    by (simp add: st used_buckets_fold)
  have ubc: "used_buckets ?s \<le> capacity db"
    unfolding ub len [symmetric] by (rule length_filter_le)
  have "(\<Sum>es\<leftarrow>buckets db. length es - 1) = (\<Sum>es\<leftarrow>buckets db. nat (max (int (length es) - 1) 0))"
    by (rule arg_cong [of _ _ sum_list]) (auto intro!: map_cong)
  then have tc: "total_collisions ?s = (\<Sum>es\<leftarrow>buckets db. nat (max (int (length es) - 1) 0))"
    by (simp add: st total_collisions_fold)
  have ne: "buckets db \<noteq> []" using len cap by auto
  have mc: "max_chain_length ?s = Max (length ` set (buckets db))"
    by (simp add: st max_chain_length_fold fold_max_Max [OF ne])
  have pos: "1 \<le> max_chain_length ?s" if "0 < count db"
  proof -
    from that cnt have "concat (buckets db) \<noteq> []" by auto
    then obtain es where es: "es \<in> set (buckets db)" "es \<noteq> []" by auto
    then have "length es \<le> Max (length ` set (buckets db))" by (intro Max_ge) auto
    moreover from es(2) have "1 \<le> length es" by (cases es) auto
    ultimately show ?thesis unfolding mc by linarith
  qed
  have zero: "max_chain_length ?s = 0" if "count db = 0"
  proof -
    from that cnt have "concat (buckets db) = []" by simp
    then have e: "\<forall>es\<in>set (buckets db). es = []" by simp
    from ne obtain b where "b \<in> set (buckets db)" by (cases "buckets db") auto
    with e have "length ` set (buckets db) = {0}" by force
    then show ?thesis unfolding mc by simp
  qed
  from te ub ubc tc mc pos zero show ?thesis by blast
qed

text \<open>C9 at the table of forty-eight keys and at the empty table.\<close>

theorem stats_consistency_witness:
  "invar (table_of 48) \<and> 0 < count (table_of 48)
   \<and> total_entries (db_stats (Some (table_of 48))) = 48
   \<and> used_buckets (db_stats (Some (table_of 48))) \<le> 64
   \<and> 1 \<le> max_chain_length (db_stats (Some (table_of 48)))
   \<and> invar empty_table \<and> count empty_table = 0
   \<and> max_chain_length (db_stats (Some empty_table)) = 0"
proof -
  have inv: "invar (table_of 48)" using filled_table [of 48] by simp
  have c: "count (table_of 48) = 48" "capacity (table_of 48) = 64" by code_simp+
  have c0: "count empty_table = 0" by (simp add: empty_table_def)
  from stats_consistency [OF inv] c
  have "total_entries (db_stats (Some (table_of 48))) = 48
   \<and> used_buckets (db_stats (Some (table_of 48))) \<le> 64
   \<and> 1 \<le> max_chain_length (db_stats (Some (table_of 48)))"
    by (simp add: db_count_def)
  moreover from stats_consistency [OF invar_empty_table] c0
  have "max_chain_length (db_stats (Some empty_table)) = 0" by blast
  ultimately show ?thesis using inv c c0 invar_empty_table by simp
qed

subsection \<open>C10: the empty key\<close>

text \<open>
  C10. The hash of the empty string is the offset basis 14695981039346656037. The empty
  string is a key like any other: after a successful \<^verbatim>\<open>db_set("", v)\<close>, \<^verbatim>\<open>db_get("")\<close>
  returns \<open>v\<close>, and the count has grown by one exactly when the key was absent.
\<close>

theorem empty_key:
  "fnv1a '''' = 14695981039346656037
   \<and> (invar db \<and> db_set a (Some db) (Some '''') (Some v) = (True, dbp', a') \<longrightarrow>
        db_get dbp' (Some '''') = Some v \<and> db_exists dbp' (Some '''')
        \<and> db_count dbp' = (if db_exists (Some db) (Some '''') then count db else count db + 1))"
proof -
  have "fnv1a '''' = 14695981039346656037" by (simp add: fnv1a_def)
  moreover have "db_get dbp' (Some '''') = Some v \<and> db_exists dbp' (Some '''')
        \<and> db_count dbp' = (if db_exists (Some db) (Some '''') then count db else count db + 1)"
    if "invar db" "db_set a (Some db) (Some '''') (Some v) = (True, dbp', a')"
    using db_set_success [OF that] by (auto simp: db_exists_def db_count_def)
  ultimately show ?thesis by blast
qed

text \<open>C10 at the empty table.\<close>

theorem empty_key_witness:
  "fnv1a '''' = 14695981039346656037 \<and> invar empty_table
   \<and> fst (db_set all_ok (Some empty_table) (Some '''') (Some ''x''))
   \<and> db_get (fst (snd (db_set all_ok (Some empty_table) (Some '''') (Some ''x'')))) (Some '''')
       = Some ''x''
   \<and> db_count (fst (snd (db_set all_ok (Some empty_table) (Some '''') (Some ''x'')))) = 1"
proof -
  let ?r = "db_set all_ok (Some empty_table) (Some '''') (Some ''x'')"
  have ok: "fst ?r" by code_simp
  then have eq: "?r = (True, fst (snd ?r), snd (snd ?r))" by (simp add: prod_eq_iff)
  have c0: "count empty_table = 0" by (simp add: empty_table_def)
  have ne: "\<not> db_exists (Some empty_table) (Some '''')"
    by (simp add: db_exists_def get_empty_table)
  from empty_key [of empty_table all_ok "''x''" "fst (snd ?r)" "snd (snd ?r)"]
    invar_empty_table eq c0 ne ok
  show ?thesis by simp
qed

end
